theory Spec2Isabelle
  imports Main
begin

section \<open>Data model\<close>

text \<open>
  The decoder of \<^verbatim>\<open>ConvertJSON\<close> works on dynamically typed Python values. The values that
  can flow through it are integers, strings and booleans (the scalars), nested lists of them
  (what \<^verbatim>\<open>nestLevel\<close> builds) and nested dictionaries keyed by scalars (what
  \<^verbatim>\<open>convert\<close> builds). A dictionary is kept as an association list in insertion order,
  which is the order \<^verbatim>\<open>nested.items()\<close> iterates in.
\<close>

datatype scalar = PInt int | PStr string | PBool bool

datatype node = Scalar scalar | NList "node list"

datatype rvalue = Leaf scalar | Record "(scalar \<times> rvalue) list"

type_synonym dict = "(scalar \<times> rvalue) list"

text \<open>
  The exceptions the decoder can raise: \<^verbatim>\<open>InvalidArrayFormat\<close> (a \<^verbatim>\<open>SyntaxError\<close>
  carrying the text the lexer is stuck on) and the built-in \<^verbatim>\<open>ValueError\<close> (a failed
  unpacking), \<^verbatim>\<open>TypeError\<close> (a list used as a dictionary key, \<^verbatim>\<open>len\<close> of a number)
  and \<^verbatim>\<open>IndexError\<close> (\<^verbatim>\<open>[0]\<close> of an empty list); for the key locator on
  objects in a store, \<^verbatim>\<open>AttributeError\<close> (\<^verbatim>\<open>.items()\<close> of what is not a dictionary)
  and \<^verbatim>\<open>RecursionError\<close> (the interpreter's limit on nested calls).
\<close>

datatype error =
    InvalidArrayFormat string | ValueError | TypeError | IndexError | AttributeError | RecursionError

section \<open>The lexer\<close>

text \<open>
  \<^verbatim>\<open>lexer\<close> is the regular expression
  \<^verbatim>\<open>(^i:[0-9]+;?|^s:[0-9]+:"[^"]*";?|^a:[0-9]+:{|^}|^b:[01];?)\<close>.
  Each piece of a pattern is a function from the text at the current position to the text
  left after the piece, \<open>None\<close> when the piece does not match. Every repetition in these
  patterns is followed by a character outside the repeated class (or by an optional piece), so
  the greedy match is the only one and backtracking never finds another.
\<close>

definition is_digit :: "char \<Rightarrow> bool" where
  "is_digit c = (c \<in> set ''0123456789'')"

text \<open>\<^verbatim>\<open>^\<close> without the multi-line flag: only offset 0 of the searched text.\<close>

definition bol :: "nat \<Rightarrow> string \<Rightarrow> string option" where
  "bol pos s = (if pos = 0 then Some s else None)"

text \<open>A literal piece.\<close>

definition lit :: "string \<Rightarrow> string \<Rightarrow> string option" where
  "lit p s = (if take (length p) s = p then Some (drop (length p) s) else None)"

text \<open>\<^verbatim>\<open>[0-9]+\<close>, \<^verbatim>\<open>;?\<close> and \<^verbatim>\<open>[^"]*\<close>.\<close>

definition digits1 :: "string \<Rightarrow> string option" where
  "digits1 s = (if takeWhile is_digit s = [] then None else Some (dropWhile is_digit s))"

definition opt_semi :: "string \<Rightarrow> string option" where
  "opt_semi s = (case lit '';'' s of Some r \<Rightarrow> Some r | None \<Rightarrow> Some s)"

definition not_quotes :: "string \<Rightarrow> string option" where
  "not_quotes s = Some (dropWhile (\<lambda>c. c \<noteq> CHR 0x22) s)"

text \<open>The five token patterns, tried at offset \<open>pos\<close> on the text \<open>s\<close> that starts there.\<close>


definition integer :: "nat \<Rightarrow> string \<Rightarrow> string option" where
  "integer pos s = Option.bind (Option.bind (Option.bind (bol pos s) (lit ''i:'')) digits1) opt_semi"

definition string :: "nat \<Rightarrow> string \<Rightarrow> string option" where
  "string pos s = Option.bind (Option.bind (Option.bind (Option.bind (Option.bind (Option.bind
     (Option.bind (bol pos s) (lit ''s:'')) digits1) (lit '':'')) (lit [CHR 0x22])) not_quotes)
     (lit [CHR 0x22])) opt_semi"

definition array :: "nat \<Rightarrow> string \<Rightarrow> string option" where
  "array pos s = Option.bind (Option.bind (Option.bind (bol pos s) (lit ''a:'')) digits1) (lit '':{'')"

definition boolean :: "nat \<Rightarrow> string \<Rightarrow> string option" where
  "boolean pos s = Option.bind (Option.bind (Option.bind (bol pos s) (lit ''b:''))
     (\<lambda>r. case r of [] \<Rightarrow> None | c # r' \<Rightarrow> if c \<in> set ''01'' then Some r' else None)) opt_semi"

definition endArr :: "nat \<Rightarrow> string \<Rightarrow> string option" where
  "endArr pos s = Option.bind (bol pos s) (lit ''}'')"

text \<open>The alternation, in the order of the pattern: the first alternative that matches wins.\<close>

definition lexer :: "nat \<Rightarrow> string \<Rightarrow> string option" where
  "lexer pos s =
     (case integer pos s of Some r \<Rightarrow> Some r | None \<Rightarrow>
      case string pos s of Some r \<Rightarrow> Some r | None \<Rightarrow>
      case array pos s of Some r \<Rightarrow> Some r | None \<Rightarrow>
      case endArr pos s of Some r \<Rightarrow> Some r | None \<Rightarrow>
      boolean pos s)"

text \<open>
  \<^verbatim>\<open>re.search(self.lexer, keyData)\<close>: the first offset, from the left, at which the pattern
  matches, with the span \<open>(start, end)\<close> of the match.
\<close>

definition re_search :: "string \<Rightarrow> (nat \<times> nat) option" where
  "re_search keyData =
     (case List.map_filter
             (\<lambda>pos. map_option (\<lambda>r. (pos, length keyData - length r)) (lexer pos (drop pos keyData)))
             [0..<Suc (length keyData)] of
        [] \<Rightarrow> None
      | span # _ \<Rightarrow> Some span)"

section \<open>The string operations the builder uses\<close>

definition endswith :: "string \<Rightarrow> string \<Rightarrow> bool" where
  "endswith s suffix = (drop (length s - length suffix) s = suffix \<and> length suffix \<le> length s)"

definition startswith :: "string \<Rightarrow> string \<Rightarrow> bool" where
  "startswith s p = (take (length p) s = p)"

text \<open>\<^verbatim>\<open>s.split(sep)\<close> for a one-character separator.\<close>

fun py_split :: "char \<Rightarrow> string \<Rightarrow> string list" where
  "py_split sep [] = [[]]"
| "py_split sep (c # cs) =
     (if c = sep then [] # py_split sep cs
      else case py_split sep cs of w # ws \<Rightarrow> (c # w) # ws | [] \<Rightarrow> [[c]])"

text \<open>
  \<^verbatim>\<open>re.split(colonStringSplit, s)\<close> with \<^verbatim>\<open>colonStringSplit = (?<=s):|:(?=")\<close>:
  the text is cut at every colon that follows an \<^verbatim>\<open>s\<close> or precedes a double quote.
  \<open>prev\<close> is the character before the current one.
\<close>

fun colonStringSplit :: "char option \<Rightarrow> string \<Rightarrow> string list" where
  "colonStringSplit prev [] = [[]]"
| "colonStringSplit prev (c # cs) =
     (if c = CHR '':'' \<and> (prev = Some CHR ''s'' \<or> (case cs of [] \<Rightarrow> False | d # _ \<Rightarrow> d = CHR 0x22))
      then [] # colonStringSplit (Some c) cs
      else case colonStringSplit (Some c) cs of w # ws \<Rightarrow> (c # w) # ws | [] \<Rightarrow> [[c]])"

text \<open>
  \<^verbatim>\<open>int(value)\<close> on a decimal numeral. The lexer passes only non-empty runs of the digits
  0 to 9; any other text is rejected here (Python accepts a sign, blanks and underscores as
  well, which no token can hold).
\<close>

definition digit_val :: "char \<Rightarrow> int" where
  "digit_val c = int (of_char c) - 48"

definition py_int :: "string \<Rightarrow> error + int" where
  "py_int s = (if s \<noteq> [] \<and> list_all is_digit s
               then Inr (foldl (\<lambda>n c. 10 * n + digit_val c) 0 s) else Inl ValueError)"

section \<open>The structure builder\<close>

text \<open>
  \<^verbatim>\<open>nestLevel\<close> reads and updates the non-local \<^verbatim>\<open>keyData\<close>; here it takes the text
  and returns the text left with the list it built. The \<^verbatim>\<open>while keyData\<close> loop is the
  recursion on the text left, a nested array is the nested call, and a raised exception is
  \<open>Inl\<close>. The recursion depth of the interpreter is taken as unbounded.
\<close>

function nestLevel :: "string \<Rightarrow> node list \<Rightarrow> error + (node list \<times> string)" where
  "nestLevel keyData currentList =
    (if keyData = [] then Inr (currentList, keyData)
     else case re_search keyData of
       None \<Rightarrow> Inl (InvalidArrayFormat keyData)
     | Some (start, end') \<Rightarrow>
        (let substring = take end' keyData;
             keyData' = drop end' keyData;
             substring = (if endswith substring '';'' then butlast substring else substring)
         in if startswith substring ''a'' then
              (case nestLevel keyData' [] of
                 Inl err \<Rightarrow> Inl err
               | Inr (sub, keyData'') \<Rightarrow> nestLevel keyData'' (currentList @ [NList sub]))
            else if startswith substring ''i'' then
              (case py_split CHR '':'' substring of
                 [_, val] \<Rightarrow>
                   (case py_int val of
                      Inl err \<Rightarrow> Inl err
                    | Inr n \<Rightarrow> nestLevel keyData' (currentList @ [Scalar (PInt n)]))
               | _ \<Rightarrow> Inl ValueError)
            else if startswith substring ''s'' then
              (case colonStringSplit None substring of
                 [_, _, val] \<Rightarrow> nestLevel keyData' (currentList @ [Scalar (PStr (butlast (tl val)))])
               | _ \<Rightarrow> Inl ValueError)
            else if startswith substring ''b'' then
              (case py_split CHR '':'' substring of
                 [_, val] \<Rightarrow> nestLevel keyData' (currentList @ [Scalar (PBool (val \<noteq> []))])
               | _ \<Rightarrow> Inl ValueError)
            else if startswith substring ''}'' then Inr (currentList, keyData')
            else nestLevel keyData' currentList))"
  by pat_completeness auto

text \<open>Termination: every match of the lexer starts at offset 0 and is not empty.\<close>

lemma lit_Some: "lit p s = Some r \<Longrightarrow> s = p @ r"
proof -
  assume "lit p s = Some r"
  then have "take (length p) s = p" "r = drop (length p) s"
    by (auto simp: lit_def split: if_splits)
  then show ?thesis using append_take_drop_id[of "length p" s] by simp
qed

lemma digits1_Some: "digits1 s = Some r \<Longrightarrow> s = takeWhile is_digit s @ r \<and> takeWhile is_digit s \<noteq> []"
  by (auto simp: digits1_def split: if_splits)

lemma lit_len: "lit p s = Some r \<Longrightarrow> length s = length p + length r"
  by (drule lit_Some) simp

lemma opt_semi_Some: "opt_semi s = Some r \<Longrightarrow> length r \<le> length s"
  by (auto simp: opt_semi_def split: option.splits dest!: lit_len)

lemma not_quotes_Some: "not_quotes s = Some r \<Longrightarrow> length r \<le> length s"
  by (auto simp: not_quotes_def length_dropWhile_le)

lemma bol_Some: "bol pos s = Some r \<Longrightarrow> pos = 0 \<and> r = s"
  by (auto simp: bol_def split: if_splits)

lemma digits1_len: "digits1 s = Some r \<Longrightarrow> length r < length s"
proof -
  assume "digits1 s = Some r"
  then have "s = takeWhile is_digit s @ r" "takeWhile is_digit s \<noteq> []"
    by (auto dest: digits1_Some)
  then have "length s = length (takeWhile is_digit s) + length r" "0 < length (takeWhile is_digit s)"
    by (metis length_append, simp)
  then show ?thesis by linarith
qed


lemma lit_le: "lit p s = Some r \<Longrightarrow> length r \<le> length s"
  by (drule lit_len) simp

lemma lit_less: "lit p s = Some r \<Longrightarrow> p \<noteq> [] \<Longrightarrow> length r < length s"
  by (drule lit_len) simp

lemma bind_SomeE:
  assumes "Option.bind m f = Some r"
  obtains x where "m = Some x" "f x = Some r"
  using assms by (cases m) auto

lemma integer_Some: "integer pos s = Some r \<Longrightarrow> pos = 0 \<and> length r < length s"
  unfolding integer_def
  apply (elim bind_SomeE)
  apply (drule bol_Some lit_le digits1_len opt_semi_Some)+
  apply simp
  done

lemma string_Some: "string pos s = Some r \<Longrightarrow> pos = 0 \<and> length r < length s"
  unfolding string_def
  apply (elim bind_SomeE)
  apply (drule bol_Some lit_le digits1_len opt_semi_Some not_quotes_Some)+
  apply simp
  done

lemma array_Some: "array pos s = Some r \<Longrightarrow> pos = 0 \<and> length r < length s"
  unfolding array_def
  apply (elim bind_SomeE)
  apply (drule bol_Some lit_le digits1_len)+
  apply simp
  done

lemma endArr_Some: "endArr pos s = Some r \<Longrightarrow> pos = 0 \<and> length r < length s"
  unfolding endArr_def
  apply (elim bind_SomeE)
  apply (drule bol_Some)
  apply (drule lit_less)
  apply simp_all
  done

lemma boolean_Some: "boolean pos s = Some r \<Longrightarrow> pos = 0 \<and> length r < length s"
  unfolding boolean_def
  apply (elim bind_SomeE)
  apply (drule bol_Some lit_le opt_semi_Some)+
  apply (auto split: list.splits if_splits)
  done

lemma lexer_Some: "lexer pos s = Some r \<Longrightarrow> pos = 0 \<and> length r < length s"
  unfolding lexer_def
  by (auto split: option.splits dest: integer_Some string_Some array_Some endArr_Some boolean_Some)


lemma lexer_pos: "0 < pos \<Longrightarrow> lexer pos s = None"
  using lexer_Some[of pos s] by (cases "lexer pos s") auto

lemma map_filter_None: "(\<And>x. x \<in> set xs \<Longrightarrow> f x = None) \<Longrightarrow> List.map_filter f xs = []"
  by (induction xs) auto

lemma re_search_eq:
  "re_search keyData = map_option (\<lambda>r. (0, length keyData - length r)) (lexer 0 keyData)"
proof -
  let ?f = "\<lambda>pos. map_option (\<lambda>r. (pos, length keyData - length r)) (lexer pos (drop pos keyData))"
  have 1: "[0..<Suc (length keyData)] = 0 # [Suc 0..<Suc (length keyData)]"
    by (rule upt_conv_Cons) simp
  have 2: "List.map_filter ?f [Suc 0..<Suc (length keyData)] = []"
    by (rule map_filter_None) (auto intro: lexer_pos)
  have "List.map_filter ?f [0..<Suc (length keyData)]
          = (case ?f 0 of None \<Rightarrow> [] | Some x \<Rightarrow> [x])"
    unfolding 1 List.map_filter_simps 2 ..
  then show ?thesis
    unfolding re_search_def by (cases "lexer 0 keyData") simp_all
qed

lemma re_search_Some:
  "re_search keyData = Some (start, end') \<Longrightarrow> start = 0 \<and> 0 < end' \<and> end' \<le> length keyData"
  by (auto simp: re_search_eq dest!: lexer_Some)


lemma nestLevel_dom_length:
  "nestLevel_dom (keyData, currentList) \<Longrightarrow> nestLevel keyData currentList = Inr (l, rest)
     \<Longrightarrow> length rest \<le> length keyData"
proof (induction keyData currentList arbitrary: l rest rule: nestLevel.pinduct)
  case (1 keyData currentList)
  note psimp = nestLevel.psimps[OF "1.hyps"]
  show ?case
  proof (cases "keyData = []")
    case True
    with "1.prems" psimp show ?thesis by simp
  next
    case False
    then obtain start end' where rs: "re_search keyData = Some (start, end')"
      using "1.prems" psimp by (cases "re_search keyData") auto
    define substring where "substring = (if endswith (take end' keyData) '';'' then butlast (take end' keyData) else take end' keyData)"
    define keyData' where "keyData' = drop end' keyData"
    have len: "length keyData' < length keyData"
      using re_search_Some[OF rs] False by (simp add: keyData'_def)
    note IH = "1.IH"[OF False rs refl refl, folded keyData'_def, OF refl, folded substring_def]
    have eq: "nestLevel keyData currentList =
       (if startswith substring ''a'' then
              (case nestLevel keyData' [] of
                 Inl err \<Rightarrow> Inl err
               | Inr (sub, keyData'') \<Rightarrow> nestLevel keyData'' (currentList @ [NList sub]))
            else if startswith substring ''i'' then
              (case py_split CHR '':'' substring of
                 [_, val] \<Rightarrow>
                   (case py_int val of
                      Inl err \<Rightarrow> Inl err
                    | Inr n \<Rightarrow> nestLevel keyData' (currentList @ [Scalar (PInt n)]))
               | _ \<Rightarrow> Inl ValueError)
            else if startswith substring ''s'' then
              (case colonStringSplit None substring of
                 [_, _, val] \<Rightarrow> nestLevel keyData' (currentList @ [Scalar (PStr (butlast (tl val)))])
               | _ \<Rightarrow> Inl ValueError)
            else if startswith substring ''b'' then
              (case py_split CHR '':'' substring of
                 [_, val] \<Rightarrow> nestLevel keyData' (currentList @ [Scalar (PBool (val \<noteq> []))])
               | _ \<Rightarrow> Inl ValueError)
            else if startswith substring ''}'' then Inr (currentList, keyData')
            else nestLevel keyData' currentList)"
      by (subst psimp) (simp only: False rs if_False option.case prod.case Let_def substring_def keyData'_def)
    note IH' = IH[OF refl]
    show ?thesis
    proof (cases "startswith substring ''a''")
      case True
      from "1.prems" obtain sub k2 where a: "nestLevel keyData' [] = Inr (sub, k2)"
        and b: "nestLevel k2 (currentList @ [NList sub]) = Inr (l, rest)"
        unfolding eq using True by (auto split: sum.splits)
      from IH'(1)[OF True a] IH'(2)[OF True a refl b] len show ?thesis by simp
    next
      case notA: False
      have "length rest \<le> length keyData'"
        using "1.prems" notA unfolding eq
        by (auto split: if_splits list.splits sum.splits
                 dest: IH'(3)[OF notA] IH'(4)[OF notA] IH'(5)[OF notA] IH'(6)[OF notA])
      with len show ?thesis by simp
    qed
  qed
qed


termination nestLevel
proof (relation "measure (\<lambda>(keyData, currentList). length keyData)", goal_cases)
  case 1
  show ?case by simp
next
  case (2 keyData currentList x2 x y xa xb xc)
  then show ?case by (auto dest!: re_search_Some)
next
  case (3 keyData currentList x2 x y xa xb xc b xd ya)
  then have "length ya \<le> length xb" "0 < y" "keyData \<noteq> []"
    by (auto dest!: re_search_Some dest: nestLevel_dom_length)
  moreover have "length xb = length keyData - y" using 3 by simp
  ultimately have "length ya < length keyData" by (cases keyData) auto
  then show ?case by simp
next
  case 4
  then show ?case by (auto dest!: re_search_Some)
next
  case 5
  then show ?case by (auto dest!: re_search_Some)
next
  case 6
  then show ?case by (auto dest!: re_search_Some)
next
  case 7
  then show ?case by (auto dest!: re_search_Some)
qed

text \<open>The defining equation is unfolded by hand where it is needed.\<close>

declare nestLevel.simps [simp del]

section \<open>The map converter and the decoder\<close>

text \<open>
  Python compares dictionary keys with \<^verbatim>\<open>==\<close>, under which \<^verbatim>\<open>True == 1\<close> and
  \<^verbatim>\<open>False == 0\<close> (with equal hashes); a string equals only the same string.
\<close>

definition py_eq :: "scalar \<Rightarrow> scalar \<Rightarrow> bool" where
  "py_eq a b =
     (case (a, b) of
        (PInt i, PInt j) \<Rightarrow> i = j
      | (PInt i, PBool c) \<Rightarrow> i = (if c then 1 else 0)
      | (PBool c, PInt j) \<Rightarrow> (if c then 1 else 0) = j
      | (PBool c, PBool d) \<Rightarrow> c = d
      | (PStr s, PStr t) \<Rightarrow> s = t
      | _ \<Rightarrow> False)"

text \<open>
  \<^verbatim>\<open>currentDict[key] = v\<close>: an equal key keeps its place and its first spelling and takes
  the new value; a new key goes to the end.
\<close>

fun dict_set :: "dict \<Rightarrow> scalar \<Rightarrow> rvalue \<Rightarrow> dict" where
  "dict_set [] key v = [(key, v)]"
| "dict_set ((ky, old) # d) key v =
     (if py_eq ky key then (ky, v) # d else (ky, old) # dict_set d key v)"

text \<open>
  \<^verbatim>\<open>convert\<close>: the loop over \<^verbatim>\<open>zip(range(0, length - 1, 2), range(1, length, 2))\<close>
  visits the index pairs (0, 1), (2, 3), ... while both are in range, that is the elements
  two at a time. The right-hand side \<^verbatim>\<open>convert(val)\<close> is evaluated before the key is
  hashed; a key that is a list is unhashable.
\<close>

fun convert_loop :: "node list \<Rightarrow> dict \<Rightarrow> error + dict"
  and convert_list :: "node list \<Rightarrow> error + dict" where
  "convert_loop (key # val # rest) currentDict =
     (case val of
        NList sub \<Rightarrow>
          (case convert_list sub of
             Inl err \<Rightarrow> Inl err
           | Inr d \<Rightarrow>
               (case key of
                  Scalar k \<Rightarrow> convert_loop rest (dict_set currentDict k (Record d))
                | NList _ \<Rightarrow> Inl TypeError))
      | Scalar v \<Rightarrow>
          (case key of
             Scalar k \<Rightarrow> convert_loop rest (dict_set currentDict k (Leaf v))
           | NList _ \<Rightarrow> Inl TypeError))"
| "convert_loop [key] currentDict = Inr currentDict"
| "convert_loop [] currentDict = Inr currentDict"
| "convert_list multiLevelArray = convert_loop multiLevelArray []"

text \<open>
  The argument of the outermost call is whatever stands first in the top-level list: of a
  list the elements are paired, of a string its characters (a Python string is a sequence
  of one-character strings), and \<^verbatim>\<open>len\<close> of a number or a boolean raises.
\<close>

definition convert :: "node \<Rightarrow> error + dict" where
  "convert multiLevelArray =
     (case multiLevelArray of
        NList xs \<Rightarrow> convert_list xs
      | Scalar (PStr s) \<Rightarrow> convert_list (map (\<lambda>c. Scalar (PStr [c])) s)
      | Scalar _ \<Rightarrow> Inl TypeError)"

text \<open>
  \<^verbatim>\<open>decode\<close> from the line it has read: \<^verbatim>\<open>convert(nestLevel()[0])\<close>.
\<close>

definition decode_keyData :: "string \<Rightarrow> error + dict" where
  "decode_keyData keyData =
     (case nestLevel keyData [] of
        Inl err \<Rightarrow> Inl err
      | Inr (l, _) \<Rightarrow> (case l of [] \<Rightarrow> Inl IndexError | root # _ \<Rightarrow> convert root))"

section \<open>The pairs of a list\<close>

text \<open>
  The pairs the converter is to visit, by their positions: element \<open>2k\<close> is a key and
  element \<open>2k + 1\<close> its value, for every \<open>k\<close> from 0 while both positions are in the list.
\<close>

definition paired :: "'a list \<Rightarrow> ('a \<times> 'a) list" where
  "paired xs = map (\<lambda>k. (xs ! (2 * k), xs ! (2 * k + 1))) [0..<length xs div 2]"

text \<open>
  One pass of the loop body of \<^verbatim>\<open>convert\<close> on the dictionary built so far, and the passes
  over a list of pairs in their order, ended by the first exception.
\<close>

definition assign :: "dict \<Rightarrow> node \<Rightarrow> node \<Rightarrow> error + dict" where
  "assign currentDict key val =
     (case val of
        NList sub \<Rightarrow>
          (case convert_list sub of
             Inl err \<Rightarrow> Inl err
           | Inr d \<Rightarrow>
               (case key of
                  Scalar k \<Rightarrow> Inr (dict_set currentDict k (Record d))
                | NList _ \<Rightarrow> Inl TypeError))
      | Scalar v \<Rightarrow>
          (case key of
             Scalar k \<Rightarrow> Inr (dict_set currentDict k (Leaf v))
           | NList _ \<Rightarrow> Inl TypeError))"

fun run_pairs :: "(node \<times> node) list \<Rightarrow> dict \<Rightarrow> error + dict" where
  "run_pairs [] currentDict = Inr currentDict"
| "run_pairs ((key, val) # ps) currentDict =
     (case assign currentDict key val of
        Inl err \<Rightarrow> Inl err
      | Inr d \<Rightarrow> run_pairs ps d)"

lemma paired_Nil [simp]: "paired [] = []"
  by (simp add: paired_def)

lemma paired_single [simp]: "paired [x] = []"
  by (simp add: paired_def)

lemma paired_Cons2 [simp]: "paired (x # y # zs) = (x, y) # paired zs"
proof -
  have "[0..<Suc (length zs div 2)] = 0 # map Suc [0..<length zs div 2]"
    by (simp add: upt_conv_Cons map_Suc_upt del: upt_Suc)
  then show ?thesis
    by (simp add: paired_def comp_def del: upt_Suc)
qed

lemma paired_set: "(k, v) \<in> set (paired xs) \<Longrightarrow> k \<in> set xs \<and> v \<in> set xs"
  by (induction xs rule: induct_list012) auto

lemma paired_odd: "odd (length xs) \<Longrightarrow> paired xs = paired (butlast xs)"
proof (induction xs rule: induct_list012)
  case (3 x y zs)
  then show ?case by (cases zs) auto
qed simp_all

text \<open>
  No list stands where a key is needed: in the list and in every list that is the value of
  one of its pairs, every key is a scalar.
\<close>

function keys_ok :: "node \<Rightarrow> bool" where
  "keys_ok (Scalar s) = True"
| "keys_ok (NList xs) =
     list_all (\<lambda>(key, val). (case key of Scalar _ \<Rightarrow> True | NList _ \<Rightarrow> False) \<and> keys_ok val)
       (paired xs)"
  by pat_completeness auto
termination
proof (relation "measure size", goal_cases)
  case 1
  show ?case by simp
next
  case (2 xs z key val)
  then have "val \<in> set xs" using paired_set by fastforce
  then have "size val \<le> size_list size xs" by (simp add: size_list_estimation')
  then show ?case by simp
qed

section \<open>The key locator\<close>

text \<open>
  \<^verbatim>\<open>find\<close> returns \<^verbatim>\<open>None\<close> when its loop ends without a \<^verbatim>\<open>return\<close>; that is
  \<open>None\<close> here, and a value is \<open>Some\<close>. The test \<^verbatim>\<open>if res:\<close> on the result of a
  nested search is Python's truth value: \<^verbatim>\<open>None\<close>, 0, the empty string, \<^verbatim>\<open>False\<close>
  and the empty dictionary are false.
\<close>

definition truthy :: "rvalue option \<Rightarrow> bool" where
  "truthy res =
     (case res of
        None \<Rightarrow> False
      | Some (Leaf (PInt i)) \<Rightarrow> i \<noteq> 0
      | Some (Leaf (PStr s)) \<Rightarrow> s \<noteq> []
      | Some (Leaf (PBool b)) \<Rightarrow> b
      | Some (Record d) \<Rightarrow> d \<noteq> [])"

function (sequential) find_traverse :: "scalar \<Rightarrow> dict \<Rightarrow> rvalue option" where
  "find_traverse key [] = None"
| "find_traverse key ((ky, val) # nested) =
     (if py_eq ky key then Some val
      else case val of
        Record d \<Rightarrow>
          (let res = find_traverse key d
           in if truthy res then res else find_traverse key nested)
      | Leaf _ \<Rightarrow> find_traverse key nested)"
  by pat_completeness auto
termination
  by (relation "measure (\<lambda>(key, d). size_list (size_prod (\<lambda>_. 0) size) d)") auto

text \<open>The static method \<^verbatim>\<open>find\<close> (primed: \<open>find\<close> is a list function of HOL).\<close>

definition find' :: "scalar \<Rightarrow> dict \<Rightarrow> rvalue option" where
  "find' key nestedDicts = find_traverse key nestedDicts"

text \<open>
  \<^verbatim>\<open>findAll\<close>: the non-local list \<^verbatim>\<open>occurrences\<close> that \<^verbatim>\<open>traverse\<close> appends to is
  passed in and returned.
\<close>

function (sequential) findAll_traverse :: "scalar \<Rightarrow> dict \<Rightarrow> rvalue list \<Rightarrow> rvalue list" where
  "findAll_traverse key [] occurrences = occurrences"
| "findAll_traverse key ((ky, val) # nested) occurrences =
     (let occurrences = (if py_eq ky key then occurrences @ [val] else occurrences);
          occurrences = (case val of
                           Record d \<Rightarrow> findAll_traverse key d occurrences
                         | Leaf _ \<Rightarrow> occurrences)
      in findAll_traverse key nested occurrences)"
  by pat_completeness auto
termination
  by (relation "measure (\<lambda>(key, d, occ). size_list (size_prod (\<lambda>_. 0) size) d)") auto

definition findAll :: "scalar \<Rightarrow> dict \<Rightarrow> rvalue list" where
  "findAll key nestedDicts = findAll_traverse key nestedDicts []"

section \<open>The key locator on objects in a store\<close>

text \<open>
  Whether a call changes its argument is a question about objects, so the key locator is
  also given on a store. The store is a list of objects, the address of an object is its
  index, and a new object goes to the end. A Python value is a scalar or a reference to an
  object; a dictionary object holds its items in insertion order.
\<close>

type_synonym addr = nat

datatype hval = HScalar scalar | HRef addr

datatype obj = ODict "(scalar \<times> hval) list" | OList "hval list"

type_synonym heap = "obj list"

text \<open>The object at an address, if there is one.\<close>

definition lookup :: "heap \<Rightarrow> addr \<Rightarrow> obj option" where
  "lookup h a = (if a < length h then Some (h ! a) else None)"

text \<open>\<^verbatim>\<open>type(value) is dict\<close>, and the truth value of a result as \<^verbatim>\<open>if res:\<close> takes it.\<close>

definition is_dict :: "heap \<Rightarrow> hval \<Rightarrow> bool" where
  "is_dict h v = (case v of
      HRef a \<Rightarrow> (case lookup h a of Some (ODict _) \<Rightarrow> True | _ \<Rightarrow> False)
    | HScalar _ \<Rightarrow> False)"

definition truthy_h :: "heap \<Rightarrow> hval option \<Rightarrow> bool" where
  "truthy_h h res =
     (case res of
        None \<Rightarrow> False
      | Some (HScalar (PInt i)) \<Rightarrow> i \<noteq> 0
      | Some (HScalar (PStr s)) \<Rightarrow> s \<noteq> []
      | Some (HScalar (PBool b)) \<Rightarrow> b
      | Some (HRef a) \<Rightarrow>
          (case lookup h a of
             Some (ODict items) \<Rightarrow> items \<noteq> []
           | Some (OList xs) \<Rightarrow> xs \<noteq> []
           | None \<Rightarrow> True))"

text \<open>
  \<^verbatim>\<open>find\<close>. Every function takes the store and returns it with its result. The loop runs
  over \<^verbatim>\<open>list(nested.items())\<close>, a copy of the items made when \<^verbatim>\<open>traverse\<close> is entered.
  \<open>depth\<close> is the number of nested calls the interpreter still allows: a record that
  holds itself makes \<^verbatim>\<open>traverse\<close> recurse until \<^verbatim>\<open>RecursionError\<close> is raised.
\<close>

fun find_traverse_h :: "nat \<Rightarrow> scalar \<Rightarrow> hval \<Rightarrow> heap \<Rightarrow> (error + hval option) \<times> heap"
  and find_loop_h :: "nat \<Rightarrow> scalar \<Rightarrow> (scalar \<times> hval) list \<Rightarrow> heap \<Rightarrow> (error + hval option) \<times> heap" where
  "find_traverse_h 0 key nested h = (Inl RecursionError, h)"
| "find_traverse_h (Suc depth) key nested h =
     (case nested of
        HRef a \<Rightarrow>
          (case lookup h a of
             Some (ODict items) \<Rightarrow> find_loop_h depth key items h
           | _ \<Rightarrow> (Inl AttributeError, h))
      | HScalar _ \<Rightarrow> (Inl AttributeError, h))"
| "find_loop_h depth key [] h = (Inr None, h)"
| "find_loop_h depth key ((ky, val) # items) h =
     (if py_eq ky key then (Inr (Some val), h)
      else if is_dict h val then
        (case find_traverse_h depth key val h of
           (Inl err, h') \<Rightarrow> (Inl err, h')
         | (Inr res, h') \<Rightarrow>
             if truthy_h h' res then (Inr res, h') else find_loop_h depth key items h')
      else find_loop_h depth key items h)"

definition find_h :: "nat \<Rightarrow> scalar \<Rightarrow> hval \<Rightarrow> heap \<Rightarrow> (error + hval option) \<times> heap" where
  "find_h limit key nestedDicts h = find_traverse_h limit key nestedDicts h"

text \<open>\<^verbatim>\<open>occurrences.append(value)\<close> on the list object at an address.\<close>

definition list_append :: "heap \<Rightarrow> addr \<Rightarrow> hval \<Rightarrow> heap" where
  "list_append h a v =
     (case lookup h a of Some (OList xs) \<Rightarrow> h[a := OList (xs @ [v])] | _ \<Rightarrow> h)"

text \<open>
  \<^verbatim>\<open>findAll\<close>: \<^verbatim>\<open>occurrences = []\<close> makes a new list object, \<^verbatim>\<open>traverse\<close> appends to it,
  and the reference to it is returned.
\<close>

fun findAll_traverse_h :: "nat \<Rightarrow> scalar \<Rightarrow> addr \<Rightarrow> hval \<Rightarrow> heap \<Rightarrow> error option \<times> heap"
  and findAll_loop_h :: "nat \<Rightarrow> scalar \<Rightarrow> addr \<Rightarrow> (scalar \<times> hval) list \<Rightarrow> heap \<Rightarrow> error option \<times> heap" where
  "findAll_traverse_h 0 key occurrences nested h = (Some RecursionError, h)"
| "findAll_traverse_h (Suc depth) key occurrences nested h =
     (case nested of
        HRef a \<Rightarrow>
          (case lookup h a of
             Some (ODict items) \<Rightarrow> findAll_loop_h depth key occurrences items h
           | _ \<Rightarrow> (Some AttributeError, h))
      | HScalar _ \<Rightarrow> (Some AttributeError, h))"
| "findAll_loop_h depth key occurrences [] h = (None, h)"
| "findAll_loop_h depth key occurrences ((ky, val) # items) h =
     (let h1 = (if py_eq ky key then list_append h occurrences val else h)
      in if is_dict h1 val then
           (case findAll_traverse_h depth key occurrences val h1 of
              (Some err, h2) \<Rightarrow> (Some err, h2)
            | (None, h2) \<Rightarrow> findAll_loop_h depth key occurrences items h2)
         else findAll_loop_h depth key occurrences items h1)"

definition findAll_h :: "nat \<Rightarrow> scalar \<Rightarrow> hval \<Rightarrow> heap \<Rightarrow> (error + hval) \<times> heap" where
  "findAll_h limit key nestedDicts h =
     (let occurrences = length h;
          h1 = h @ [OList []]
      in case findAll_traverse_h limit key occurrences nestedDicts h1 of
           (Some err, h2) \<Rightarrow> (Inl err, h2)
         | (None, h2) \<Rightarrow> (Inr (HRef occurrences), h2))"



text \<open>
  Between two stores, nothing but the list at one address has changed: the same addresses
  hold objects, every other object is the same, and the list is still a list.
\<close>

definition only_list_changed :: "addr \<Rightarrow> heap \<Rightarrow> heap \<Rightarrow> bool" where
  "only_list_changed occurrences h h' =
     (length h' = length h \<and>
      (\<forall>a. a \<noteq> occurrences \<longrightarrow> lookup h' a = lookup h a) \<and>
      ((\<exists>xs. lookup h occurrences = Some (OList xs)) \<longrightarrow>
       (\<exists>ys. lookup h' occurrences = Some (OList ys))))"

section \<open>Syntactically valid texts\<close>

text \<open>
  The inputs the format is made for, after the token grammars: an integer, a string, a
  boolean, each with or without its closing semicolon, or an array of such values between
  its opening tag and its closing marker. A count is a non-empty run of digits; the
  payload of a string holds no double quote.
\<close>

datatype sval =
    VInt string bool
  | VStr string string bool
  | VBool char bool
  | VArr string "sval list"

definition semi_text :: "bool \<Rightarrow> string" where
  "semi_text semi = (if semi then '';'' else [])"

fun render :: "sval \<Rightarrow> string" where
  "render (VInt ds semi) = ''i:'' @ ds @ semi_text semi"
| "render (VStr n c semi) = ''s:'' @ n @ '':'' @ [CHR 0x22] @ c @ [CHR 0x22] @ semi_text semi"
| "render (VBool d semi) = ''b:'' @ [d] @ semi_text semi"
| "render (VArr n vs) = ''a:'' @ n @ '':{'' @ concat (map render vs) @ ''}''"

definition digits :: "string \<Rightarrow> bool" where
  "digits ds = (ds \<noteq> [] \<and> list_all is_digit ds)"

fun well_formed :: "sval \<Rightarrow> bool" where
  "well_formed (VInt ds semi) = digits ds"
| "well_formed (VStr n c semi) = (digits n \<and> list_all (\<lambda>x. x \<noteq> CHR 0x22) c)"
| "well_formed (VBool d semi) = (d = CHR ''0'' \<or> d = CHR ''1'')"
| "well_formed (VArr n vs) = (digits n \<and> list_all well_formed vs)"

text \<open>
  What the builder is to make of a valid text: its value as a \<open>node\<close>, or the exception of
  the first token that raises one. The only token that can is a string whose payload holds
  a colon after an \<^verbatim>\<open>s\<close> or before the closing quote: \<^verbatim>\<open>re.split\<close> then returns more
  than three parts and the unpacking fails.
\<close>

fun node_of :: "sval \<Rightarrow> error + node"
  and nodes_of :: "sval list \<Rightarrow> error + node list" where
  "node_of (VInt ds semi) =
     (case py_int ds of Inl err \<Rightarrow> Inl err | Inr n \<Rightarrow> Inr (Scalar (PInt n)))"
| "node_of (VStr n c semi) =
     (case colonStringSplit (Some CHR '':'') (CHR 0x22 # c @ [CHR 0x22]) of
        [val] \<Rightarrow> Inr (Scalar (PStr c))
      | _ \<Rightarrow> Inl ValueError)"
| "node_of (VBool d semi) = Inr (Scalar (PBool True))"
| "node_of (VArr n vs) =
     (case nodes_of vs of Inl err \<Rightarrow> Inl err | Inr xs \<Rightarrow> Inr (NList xs))"
| "nodes_of [] = Inr []"
| "nodes_of (v # vs) =
     (case node_of v of
        Inl err \<Rightarrow> Inl err
      | Inr x \<Rightarrow> (case nodes_of vs of Inl err \<Rightarrow> Inl err | Inr xs \<Rightarrow> Inr (x # xs)))"

text \<open>The same value with every array count erased.\<close>

fun erase_counts :: "sval \<Rightarrow> sval" where
  "erase_counts (VArr n vs) = VArr [] (map erase_counts vs)"
| "erase_counts v = v"

text \<open>
  A text that ends inside its arrays: a sequence of frames, each an opening tag with the
  complete values that follow it, every frame opened inside the one before. \<open>close_all\<close>
  is the value the text would have with all the missing closing markers at its end.
\<close>

fun render_open :: "(string \<times> sval list) list \<Rightarrow> string" where
  "render_open [] = []"
| "render_open ((n, vs) # frames) = ''a:'' @ n @ '':{'' @ concat (map render vs) @ render_open frames"

fun close_all :: "(string \<times> sval list) list \<Rightarrow> sval list" where
  "close_all [] = []"
| "close_all ((n, vs) # frames) = [VArr n (vs @ close_all frames)]"

definition well_formed_open :: "(string \<times> sval list) list \<Rightarrow> bool" where
  "well_formed_open frames = list_all (\<lambda>(n, vs). digits n \<and> list_all well_formed vs) frames"

text \<open>
  A token with no closing semicolon is cut off correctly when the text after it starts with
  neither a digit nor a semicolon; an array ends with its closing marker and needs no such
  condition.
\<close>

definition follow_ok :: "string \<Rightarrow> bool" where
  "follow_ok rest = (case rest of [] \<Rightarrow> True | c # _ \<Rightarrow> \<not> is_digit c \<and> c \<noteq> CHR '';'')"

fun is_array :: "sval \<Rightarrow> bool" where
  "is_array (VArr n vs) = True"
| "is_array _ = False"

text \<open>
  A string token whose payload \<^verbatim>\<open>re.split\<close> leaves in one piece: no colon stands
  directly after an \<^verbatim>\<open>s\<close> and the payload does not end with a colon. A value is plain when
  all its strings are.
\<close>

fun colon_after_s :: "string \<Rightarrow> bool" where
  "colon_after_s (a # b # r) = ((a = CHR ''s'' \<and> b = CHR '':'') \<or> colon_after_s (b # r))"
| "colon_after_s _ = False"

definition plain_payload :: "string \<Rightarrow> bool" where
  "plain_payload c = (\<not> colon_after_s c \<and> (c = [] \<or> last c \<noteq> CHR '':''))"

fun plain :: "sval \<Rightarrow> bool" where
  "plain (VStr n c semi) = plain_payload c"
| "plain (VArr n vs) = list_all plain vs"
| "plain (VInt ds semi) = True"
| "plain (VBool d semi) = True"

text \<open>
  The node of a value: the decimal value of an integer, the payload of a string, the truth
  value the builder gives a boolean token, the list of the nodes of an array's elements.
\<close>

fun value_of :: "sval \<Rightarrow> node" where
  "value_of (VInt ds semi) = Scalar (PInt (foldl (\<lambda>n c. 10 * n + digit_val c) 0 ds))"
| "value_of (VStr n c semi) = Scalar (PStr c)"
| "value_of (VBool d semi) = Scalar (PBool True)"
| "value_of (VArr n vs) = NList (map value_of vs)"

section \<open>The builder on valid texts\<close>

lemma lit_append [simp]: "lit p (p @ r) = Some r"
  by (simp add: lit_def)

lemma lit_Cons_neq: "c \<noteq> d \<Longrightarrow> lit (c # p) (d # r) = None"
  by (simp add: lit_def)

lemma digits1_append:
  "digits ds \<Longrightarrow> (case r of [] \<Rightarrow> True | c # _ \<Rightarrow> \<not> is_digit c) \<Longrightarrow> digits1 (ds @ r) = Some r"
proof -
  assume d: "digits ds" and r: "case r of [] \<Rightarrow> True | c # _ \<Rightarrow> \<not> is_digit c"
  have all: "\<And>x. x \<in> set ds \<Longrightarrow> is_digit x" using d by (simp add: digits_def list_all_iff)
  have tw: "takeWhile is_digit r = []" and dw: "dropWhile is_digit r = r"
    using r by (cases r; simp)+
  have "takeWhile is_digit (ds @ r) = ds"
    using all tw by (simp add: takeWhile_append2)
  moreover have "dropWhile is_digit (ds @ r) = r"
    using all dw by (simp add: dropWhile_append2)
  ultimately show ?thesis using d by (simp add: digits1_def digits_def)
qed

lemma opt_semi_semi [simp]: "opt_semi (CHR '';'' # r) = Some r"
  by (simp add: opt_semi_def lit_def)

lemma opt_semi_other: "(case r of [] \<Rightarrow> True | c # _ \<Rightarrow> c \<noteq> CHR '';'') \<Longrightarrow> opt_semi r = Some r"
  by (cases r) (auto simp: opt_semi_def lit_def)

lemma opt_semi_text: "(semi \<or> follow_ok r) \<Longrightarrow> opt_semi (semi_text semi @ r) = Some r"
  by (cases r) (auto simp: semi_text_def follow_ok_def opt_semi_def lit_def)

lemma not_digit_semi_text: "follow_ok r \<Longrightarrow> (case semi_text semi @ r of [] \<Rightarrow> True | c # _ \<Rightarrow> \<not> is_digit c)"
  by (cases r) (auto simp: semi_text_def follow_ok_def is_digit_def)

lemma integer_render:
  assumes "digits ds" "follow_ok r"
  shows "integer 0 (''i:'' @ ds @ semi_text semi @ r) = Some r"
proof -
  have "digits1 (ds @ semi_text semi @ r) = Some (semi_text semi @ r)"
    using assms by (intro digits1_append not_digit_semi_text)
  then show ?thesis
    using assms(2) by (simp add: integer_def bol_def lit_def opt_semi_text)
qed

lemma not_quotes_append:
  "list_all (\<lambda>x. x \<noteq> CHR 0x22) c \<Longrightarrow> not_quotes (c @ CHR 0x22 # r) = Some (CHR 0x22 # r)"
  by (simp add: not_quotes_def list_all_iff dropWhile_append2)

lemma not_digit_colon: "case CHR '':'' # r of [] \<Rightarrow> True | c # _ \<Rightarrow> \<not> is_digit c"
  by (simp add: is_digit_def)

lemma string_render:
  assumes "digits n" "list_all (\<lambda>x. x \<noteq> CHR 0x22) c" "semi \<or> follow_ok r"
  shows "string 0 (''s:'' @ n @ '':'' @ [CHR 0x22] @ c @ [CHR 0x22] @ semi_text semi @ r) = Some r"
proof -
  have "digits1 (n @ CHR '':'' # CHR 0x22 # c @ CHR 0x22 # semi_text semi @ r)
          = Some (CHR '':'' # CHR 0x22 # c @ CHR 0x22 # semi_text semi @ r)"
    using assms(1) by (intro digits1_append not_digit_colon)
  then show ?thesis
    using assms(2,3)
    by (simp add: string_def bol_def lit_def not_quotes_append opt_semi_text)
qed

lemma array_render:
  assumes "digits n"
  shows "array 0 (''a:'' @ n @ '':{'' @ r) = Some r"
proof -
  have "digits1 (n @ CHR '':'' # CHR ''{'' # r) = Some (CHR '':'' # CHR ''{'' # r)"
    using assms by (intro digits1_append not_digit_colon)
  then show ?thesis
    by (simp add: array_def bol_def lit_def)
qed

lemma boolean_render:
  assumes "d = CHR ''0'' \<or> d = CHR ''1''" "semi \<or> follow_ok r"
  shows "boolean 0 (''b:'' @ [d] @ semi_text semi @ r) = Some r"
  using assms by (auto simp: boolean_def bol_def lit_def opt_semi_text)

lemma endArr_render: "endArr 0 (CHR ''}'' # r) = Some r"
  by (simp add: endArr_def bol_def lit_def)

lemma integer_other: "c \<noteq> CHR ''i'' \<Longrightarrow> integer 0 (c # r) = None"
  by (simp add: integer_def bol_def lit_def)

lemma string_other: "c \<noteq> CHR ''s'' \<Longrightarrow> string 0 (c # r) = None"
  by (simp add: string_def bol_def lit_def)

lemma array_other: "c \<noteq> CHR ''a'' \<Longrightarrow> array 0 (c # r) = None"
  by (simp add: array_def bol_def lit_def)

lemma endArr_other: "c \<noteq> CHR ''}'' \<Longrightarrow> endArr 0 (c # r) = None"
  by (simp add: endArr_def bol_def lit_def)

lemma lexer_integer:
  "digits ds \<Longrightarrow> follow_ok r \<Longrightarrow> lexer 0 (''i:'' @ ds @ semi_text semi @ r) = Some r"
  using integer_render[of ds r semi] by (simp add: lexer_def)

lemma lexer_string:
  assumes "digits n" "list_all (\<lambda>x. x \<noteq> CHR 0x22) c" "semi \<or> follow_ok r"
  shows "lexer 0 (''s:'' @ n @ '':'' @ [CHR 0x22] @ c @ [CHR 0x22] @ semi_text semi @ r) = Some r"
  using string_render[OF assms] by (simp add: lexer_def integer_other)

lemma lexer_array:
  assumes "digits n"
  shows "lexer 0 (''a:'' @ n @ '':{'' @ r) = Some r"
  using array_render[OF assms, of r] by (simp add: lexer_def integer_other string_other)

lemma lexer_endArr: "lexer 0 (CHR ''}'' # r) = Some r"
  by (simp add: lexer_def integer_other string_other array_other endArr_render)

lemma lexer_boolean:
  assumes "d = CHR ''0'' \<or> d = CHR ''1''" "semi \<or> follow_ok r"
  shows "lexer 0 (''b:'' @ [d] @ semi_text semi @ r) = Some r"
  using boolean_render[OF assms]
  by (simp add: lexer_def integer_other string_other array_other endArr_other)

lemma nestLevel_token:
  assumes lx: "lexer 0 (tok @ rest) = Some rest" and ne: "tok \<noteq> []"
    and sub: "substring = (if endswith tok '';'' then butlast tok else tok)"
  shows "nestLevel (tok @ rest) currentList =
     (if startswith substring ''a'' then
        (case nestLevel rest [] of
           Inl err \<Rightarrow> Inl err
         | Inr (sub, keyData'') \<Rightarrow> nestLevel keyData'' (currentList @ [NList sub]))
      else if startswith substring ''i'' then
        (case py_split CHR '':'' substring of
           [_, val] \<Rightarrow>
             (case py_int val of
                Inl err \<Rightarrow> Inl err
              | Inr n \<Rightarrow> nestLevel rest (currentList @ [Scalar (PInt n)]))
         | _ \<Rightarrow> Inl ValueError)
      else if startswith substring ''s'' then
        (case colonStringSplit None substring of
           [_, _, val] \<Rightarrow> nestLevel rest (currentList @ [Scalar (PStr (butlast (tl val)))])
         | _ \<Rightarrow> Inl ValueError)
      else if startswith substring ''b'' then
        (case py_split CHR '':'' substring of
           [_, val] \<Rightarrow> nestLevel rest (currentList @ [Scalar (PBool (val \<noteq> []))])
         | _ \<Rightarrow> Inl ValueError)
      else if startswith substring ''}'' then Inr (currentList, rest)
      else nestLevel rest currentList)"
proof -
  have rs: "re_search (tok @ rest) = Some (0, length tok)"
    using lx by (simp add: re_search_eq)
  have "tok @ rest \<noteq> []" using ne by simp
  then show ?thesis
    by (subst nestLevel.simps)
       (simp only: rs if_False option.case prod.case Let_def take_all drop_all
          append_eq_conv_conj take_append drop_append diff_self_eq_0 take_0 drop_0
          append_Nil2 order_refl sub append_Nil)
qed

lemma endswith_single: "endswith s [c] = (s \<noteq> [] \<and> last s = c)"
proof (cases s rule: rev_cases)
  case Nil
  then show ?thesis by (simp add: endswith_def)
next
  case (snoc ys y)
  then show ?thesis by (simp add: endswith_def)
qed

lemma digits_last: "digits ds \<Longrightarrow> is_digit (last ds)"
  by (simp add: digits_def list_all_iff)

lemma py_split_no_sep: "sep \<notin> set s \<Longrightarrow> py_split sep s = [s]"
proof (induction s)
  case Nil
  show ?case by simp
next
  case (Cons a s)
  from Cons.prems have "a \<noteq> sep" by (metis list.set_intros(1))
  moreover from Cons have "py_split sep s = [s]" by (metis list.set_intros(2))
  ultimately show ?case by simp
qed

lemma digits_no_colon: "digits ds \<Longrightarrow> CHR '':'' \<notin> set ds"
proof
  assume "digits ds" "CHR '':'' \<in> set ds"
  then have "is_digit CHR '':''" by (simp add: digits_def list_all_iff)
  then show False by (simp add: is_digit_def)
qed

lemma strip_integer:
  assumes "digits ds"
  shows "(if endswith (''i:'' @ ds @ semi_text semi) '';'' then butlast (''i:'' @ ds @ semi_text semi)
          else ''i:'' @ ds @ semi_text semi) = ''i:'' @ ds"
proof (cases semi)
  case True
  have "butlast (''i:'' @ ds @ '';'') = ''i:'' @ ds"
    using butlast_snoc[of "''i:'' @ ds" "CHR '';''"] by simp
  with True show ?thesis by (simp add: semi_text_def endswith_single)
next
  case False
  have "last ds \<noteq> CHR '';''" using digits_last[OF assms] by (auto simp: is_digit_def)
  moreover have "ds \<noteq> []" using assms by (simp add: digits_def)
  ultimately show ?thesis using False by (simp add: semi_text_def endswith_single)
qed

lemma nestLevel_integer:
  assumes d: "digits ds" and f: "follow_ok rest"
  shows "nestLevel (render (VInt ds semi) @ rest) currentList =
           (case py_int ds of
              Inl err \<Rightarrow> Inl err
            | Inr n \<Rightarrow> nestLevel rest (currentList @ [Scalar (PInt n)]))"
proof -
  have lx: "lexer 0 ((''i:'' @ ds @ semi_text semi) @ rest) = Some rest"
    using lexer_integer[OF d f, of semi] by simp
  have sp: "py_split CHR '':'' (''i:'' @ ds) = [''i'', ds]"
    using digits_no_colon[OF d] by (simp add: py_split_no_sep)
  have "nestLevel ((''i:'' @ ds @ semi_text semi) @ rest) currentList =
           (case py_int ds of
              Inl err \<Rightarrow> Inl err
            | Inr n \<Rightarrow> nestLevel rest (currentList @ [Scalar (PInt n)]))"
    apply (subst nestLevel_token[OF lx _ strip_integer[OF d, symmetric]])
     apply simp
    apply (simp only: startswith_def)
    apply (simp add: py_split_no_sep digits_no_colon[OF d])
    done
  then show ?thesis by (simp only: render.simps)
qed

lemma colonStringSplit_ne: "colonStringSplit p s \<noteq> []"
  by (cases s) (simp_all split: list.splits)

lemma colonStringSplit_single: "colonStringSplit p s = [v] \<Longrightarrow> v = s"
proof (induction s arbitrary: p v)
  case Nil
  then show ?case by simp
next
  case (Cons c cs)
  show ?case
  proof (cases "colonStringSplit (Some c) cs")
    case Nil
    then show ?thesis using colonStringSplit_ne by blast
  next
    case (Cons w ws)
    with Cons.prems have "ws = []" "v = c # w"
      by (auto split: if_splits)
    with Cons Cons.IH[of "Some c" w] show ?thesis by simp
  qed
qed

lemma colonStringSplit_digits:
  "CHR '':'' \<notin> set n \<Longrightarrow>
   colonStringSplit p (n @ CHR '':'' # CHR 0x22 # r) = n # colonStringSplit (Some CHR '':'') (CHR 0x22 # r)"
proof (induction n arbitrary: p)
  case Nil
  show ?case by simp
next
  case (Cons a n)
  from Cons.prems have "a \<noteq> CHR '':''" by (metis list.set_intros(1))
  moreover from Cons have "colonStringSplit (Some a) (n @ CHR '':'' # CHR 0x22 # r)
      = n # colonStringSplit (Some CHR '':'') (CHR 0x22 # r)" by (metis list.set_intros(2))
  ultimately show ?case by simp
qed

lemma colonStringSplit_string:
  assumes "digits n"
  shows "colonStringSplit None (''s:'' @ n @ '':'' @ [CHR 0x22] @ c @ [CHR 0x22])
           = ''s'' # n # colonStringSplit (Some CHR '':'') (CHR 0x22 # c @ [CHR 0x22])"
proof -
  have ne: "n \<noteq> []" using assms by (simp add: digits_def)
  have "colonStringSplit (Some CHR '':'') (n @ CHR '':'' # CHR 0x22 # c @ [CHR 0x22])
          = n # colonStringSplit (Some CHR '':'') (CHR 0x22 # c @ [CHR 0x22])"
    by (rule colonStringSplit_digits[OF digits_no_colon[OF assms]])
  moreover have "(case n @ CHR '':'' # CHR 0x22 # c @ [CHR 0x22] of [] \<Rightarrow> False | d # _ \<Rightarrow> d = CHR 0x22) = False"
    using ne digits_last[OF assms] assms
    by (cases n) (auto simp: digits_def is_digit_def)
  ultimately show ?thesis by simp
qed

lemma strip_string:
  "(if endswith (''s:'' @ n @ '':'' @ [CHR 0x22] @ c @ [CHR 0x22] @ semi_text semi) '';''
    then butlast (''s:'' @ n @ '':'' @ [CHR 0x22] @ c @ [CHR 0x22] @ semi_text semi)
    else ''s:'' @ n @ '':'' @ [CHR 0x22] @ c @ [CHR 0x22] @ semi_text semi)
   = ''s:'' @ n @ '':'' @ [CHR 0x22] @ c @ [CHR 0x22]"
proof (cases semi)
  case True
  have "butlast ((''s:'' @ n @ '':'' @ [CHR 0x22] @ c @ [CHR 0x22]) @ '';'')
          = ''s:'' @ n @ '':'' @ [CHR 0x22] @ c @ [CHR 0x22]"
    by (rule butlast_snoc)
  with True show ?thesis by (simp add: semi_text_def endswith_single)
next
  case False
  then show ?thesis by (simp add: semi_text_def endswith_single)
qed

lemma nestLevel_string:
  assumes d: "digits n" and q: "list_all (\<lambda>x. x \<noteq> CHR 0x22) c" and f: "semi \<or> follow_ok rest"
  shows "nestLevel (render (VStr n c semi) @ rest) currentList =
           (case colonStringSplit (Some CHR '':'') (CHR 0x22 # c @ [CHR 0x22]) of
              [val] \<Rightarrow> nestLevel rest (currentList @ [Scalar (PStr c)])
            | _ \<Rightarrow> Inl ValueError)"
proof -
  let ?tok = "''s:'' @ n @ '':'' @ [CHR 0x22] @ c @ [CHR 0x22] @ semi_text semi"
  let ?sub = "''s:'' @ n @ '':'' @ [CHR 0x22] @ c @ [CHR 0x22]"
  let ?parts = "colonStringSplit (Some CHR '':'') (CHR 0x22 # c @ [CHR 0x22])"
  have lx: "lexer 0 (?tok @ rest) = Some rest"
    using lexer_string[OF d q f] by simp
  have st: "\<not> startswith ?sub ''a''" "\<not> startswith ?sub ''i''" "startswith ?sub ''s''"
    by (simp_all add: startswith_def)
  have sp: "colonStringSplit None ?sub = ''s'' # n # ?parts"
    by (rule colonStringSplit_string[OF d])
  have un: "nestLevel (?tok @ rest) currentList =
      (case colonStringSplit None ?sub of
           [_, _, val] \<Rightarrow> nestLevel rest (currentList @ [Scalar (PStr (butlast (tl val)))])
         | _ \<Rightarrow> Inl ValueError)"
    by (subst nestLevel_token[OF lx _ strip_string[symmetric]]) (simp_all only: st if_True if_False, simp)
  have "(case ''s'' # n # ?parts of
           [_, _, val] \<Rightarrow> nestLevel rest (currentList @ [Scalar (PStr (butlast (tl val)))])
         | _ \<Rightarrow> Inl ValueError) =
        (case ?parts of
              [val] \<Rightarrow> nestLevel rest (currentList @ [Scalar (PStr c)])
            | _ \<Rightarrow> Inl ValueError)"
  proof (cases ?parts)
    case Nil
    then show ?thesis by simp
  next
    case (Cons v vs)
    show ?thesis
    proof (cases vs)
      case Nil
      with Cons have "v = CHR 0x22 # c @ [CHR 0x22]" by (simp add: colonStringSplit_single)
      then have "butlast (tl v) = c" by simp
      with Cons Nil show ?thesis by simp
    next
      case (Cons w ws)
      with \<open>?parts = v # vs\<close> show ?thesis by (simp split: list.splits)
    qed
  qed
  with un sp show ?thesis by (simp only: render.simps)
qed

lemma strip_boolean:
  assumes "d = CHR ''0'' \<or> d = CHR ''1''"
  shows "(if endswith (''b:'' @ [d] @ semi_text semi) '';'' then butlast (''b:'' @ [d] @ semi_text semi)
          else ''b:'' @ [d] @ semi_text semi) = ''b:'' @ [d]"
  using assms by (cases semi) (auto simp: semi_text_def endswith_single)

lemma nestLevel_boolean:
  assumes d: "d = CHR ''0'' \<or> d = CHR ''1''" and f: "semi \<or> follow_ok rest"
  shows "nestLevel (render (VBool d semi) @ rest) currentList =
           nestLevel rest (currentList @ [Scalar (PBool True)])"
proof -
  let ?tok = "''b:'' @ [d] @ semi_text semi"
  have lx: "lexer 0 (?tok @ rest) = Some rest"
    using lexer_boolean[OF d f] by simp
  have st: "\<not> startswith (''b:'' @ [d]) ''a''" "\<not> startswith (''b:'' @ [d]) ''i''"
    "\<not> startswith (''b:'' @ [d]) ''s''" "startswith (''b:'' @ [d]) ''b''"
    by (simp_all add: startswith_def)
  have sp: "py_split CHR '':'' (''b:'' @ [d]) = [''b'', [d]]"
    using d by auto
  have "nestLevel (?tok @ rest) currentList = nestLevel rest (currentList @ [Scalar (PBool True)])"
    by (subst nestLevel_token[OF lx _ strip_boolean[OF d, symmetric]])
       (simp_all only: st if_True if_False sp, simp_all)
  then show ?thesis by (simp only: render.simps)
qed

lemma strip_array:
  "(if endswith (''a:'' @ n @ '':{'') '';'' then butlast (''a:'' @ n @ '':{'') else ''a:'' @ n @ '':{'')
     = ''a:'' @ n @ '':{''"
  by (simp add: endswith_single)

lemma nestLevel_array_open:
  assumes d: "digits n"
  shows "nestLevel (''a:'' @ n @ '':{'' @ rest) currentList =
           (case nestLevel rest [] of
              Inl err \<Rightarrow> Inl err
            | Inr (sub, keyData'') \<Rightarrow> nestLevel keyData'' (currentList @ [NList sub]))"
proof -
  let ?tok = "''a:'' @ n @ '':{''"
  have lx: "lexer 0 (?tok @ rest) = Some rest"
    using lexer_array[OF d, of rest] by simp
  have st: "startswith ?tok ''a''"
    by (simp add: startswith_def)
  have "nestLevel (?tok @ rest) currentList =
           (case nestLevel rest [] of
              Inl err \<Rightarrow> Inl err
            | Inr (sub, keyData'') \<Rightarrow> nestLevel keyData'' (currentList @ [NList sub]))"
    by (subst nestLevel_token[OF lx _ strip_array[symmetric]])
       (simp_all only: st if_True, simp)
  then show ?thesis by simp
qed

lemma nestLevel_endArr:
  "nestLevel (CHR ''}'' # rest) currentList = Inr (currentList, rest)"
proof -
  have lx: "lexer 0 (''}'' @ rest) = Some rest"
    using lexer_endArr[of rest] by simp
  have sub: "''}'' = (if endswith ''}'' '';'' then butlast ''}'' else ''}'')"
    by (simp add: endswith_single)
  have st: "\<not> startswith ''}'' ''a''" "\<not> startswith ''}'' ''i''"
    "\<not> startswith ''}'' ''s''" "\<not> startswith ''}'' ''b''" "startswith ''}'' ''}''"
    by (simp_all add: startswith_def)
  have "nestLevel (''}'' @ rest) currentList = Inr (currentList, rest)"
    by (subst nestLevel_token[OF lx _ sub]) (simp_all only: st if_True if_False, simp)
  then show ?thesis by simp
qed

lemma nestLevel_Nil: "nestLevel [] currentList = Inr (currentList, [])"
  by (subst nestLevel.simps) simp

lemma follow_ok_render: "follow_ok (render v @ r)"
  by (cases v) (simp_all add: follow_ok_def is_digit_def)

lemma follow_ok_renders: "follow_ok rest \<Longrightarrow> follow_ok (concat (map render vs) @ rest)"
  by (cases vs) (simp_all add: follow_ok_render)

lemma follow_ok_close: "follow_ok (CHR ''}'' # r)"
  by (simp add: follow_ok_def is_digit_def)

lemma nestLevel_render:
  "well_formed v \<Longrightarrow> follow_ok rest \<or> is_array v \<Longrightarrow>
     nestLevel (render v @ rest) currentList =
       (case node_of v of Inl err \<Rightarrow> Inl err | Inr x \<Rightarrow> nestLevel rest (currentList @ [x]))"
  and nestLevel_renders: "list_all well_formed vs \<Longrightarrow> follow_ok rest' \<Longrightarrow>
     nestLevel (concat (map render vs) @ rest') currentList' =
       (case nodes_of vs of Inl err \<Rightarrow> Inl err | Inr xs \<Rightarrow> nestLevel rest' (currentList' @ xs))"
proof (induction v and vs arbitrary: rest currentList and rest' currentList' rule: node_of_nodes_of.induct)
  case (1 ds semi)
  then show ?case
    using nestLevel_integer[of ds rest semi currentList]
    by (simp split: sum.splits)
next
  case (2 n c semi)
  then show ?case
    using nestLevel_string[of n c semi rest currentList]
    by (simp split: list.splits)
next
  case (3 d semi)
  then show ?case
    using nestLevel_boolean[of d semi rest currentList] by simp
next
  case (4 n vs)
  from "4.prems" have d: "digits n" and w: "list_all well_formed vs" by simp_all
  have body: "nestLevel (concat (map render vs) @ CHR ''}'' # rest) [] =
       (case nodes_of vs of Inl err \<Rightarrow> Inl err | Inr xs \<Rightarrow> Inr (xs, rest))"
    using "4.IH"[OF w follow_ok_close, of rest "[]"]
    by (simp add: nestLevel_endArr split: sum.splits)
  have "nestLevel (''a:'' @ n @ '':{'' @ (concat (map render vs) @ CHR ''}'' # rest)) currentList =
       (case nodes_of vs of Inl err \<Rightarrow> Inl err | Inr xs \<Rightarrow> nestLevel rest (currentList @ [NList xs]))"
    by (subst nestLevel_array_open[OF d]) (simp add: body split: sum.splits)
  then show ?case by (simp split: sum.splits)
next
  case 5
  show ?case by simp
next
  case (6 v vs)
  from "6.prems" have wv: "well_formed v" and wvs: "list_all well_formed vs" by simp_all
  have f: "follow_ok (concat (map render vs) @ rest')"
    using "6.prems"(2) by (rule follow_ok_renders)
  have hd: "nestLevel (render v @ concat (map render vs) @ rest') currentList' =
       (case node_of v of Inl err \<Rightarrow> Inl err
        | Inr x \<Rightarrow> nestLevel (concat (map render vs) @ rest') (currentList' @ [x]))"
    using "6.IH"(1)[OF wv, of "concat (map render vs) @ rest'" currentList'] f by simp
  show ?case
  proof (cases "node_of v")
    case (Inl e)
    with hd show ?thesis by simp
  next
    case (Inr x)
    from "6.IH"(2)[OF Inr wvs "6.prems"(2), of "currentList' @ [x]"] hd Inr
    show ?thesis by (simp split: sum.splits)
  qed
qed

lemma node_of_erase: "node_of (erase_counts v) = node_of v"
  and nodes_of_erase: "nodes_of (map erase_counts vs) = nodes_of vs"
  by (induction v and vs rule: node_of_nodes_of.induct) (simp_all split: sum.splits)

lemma decode_render:
  assumes "well_formed v"
  shows "decode_keyData (render v) = (case node_of v of Inl err \<Rightarrow> Inl err | Inr x \<Rightarrow> convert x)"
proof -
  have "follow_ok []" by (simp add: follow_ok_def)
  then have "nestLevel (render v @ []) [] =
     (case node_of v of Inl err \<Rightarrow> Inl err | Inr x \<Rightarrow> nestLevel [] ([] @ [x]))"
    using assms by (intro nestLevel_render) simp_all
  then show ?thesis
    by (simp add: decode_keyData_def nestLevel_Nil split: sum.splits)
qed

lemma nodes_of_append:
  "nodes_of (xs @ ys) =
     (case nodes_of xs of
        Inl err \<Rightarrow> Inl err
      | Inr a \<Rightarrow> (case nodes_of ys of Inl err \<Rightarrow> Inl err | Inr b \<Rightarrow> Inr (a @ b)))"
  by (induction xs) (simp_all split: sum.splits)

lemma follow_ok_render_open: "follow_ok (render_open frames)"
  by (cases frames) (auto simp: follow_ok_def is_digit_def)

lemma nestLevel_render_open:
  "well_formed_open frames \<Longrightarrow>
     nestLevel (render_open frames) currentList =
       (case nodes_of (close_all frames) of
          Inl err \<Rightarrow> Inl err
        | Inr xs \<Rightarrow> Inr (currentList @ xs, []))"
proof (induction frames arbitrary: currentList)
  case Nil
  show ?case by (simp add: nestLevel_Nil)
next
  case (Cons frame frames)
  obtain n vs where frame: "frame = (n, vs)" by (cases frame)
  from Cons.prems frame have d: "digits n" and w: "list_all well_formed vs"
    and ws: "well_formed_open frames"
    by (simp_all add: well_formed_open_def)
  have body: "nestLevel (concat (map render vs) @ render_open frames) [] =
      (case nodes_of (vs @ close_all frames) of Inl err \<Rightarrow> Inl err | Inr xs \<Rightarrow> Inr (xs, []))"
    using nestLevel_renders[OF w follow_ok_render_open, of frames "[]"] Cons.IH[OF ws]
    by (simp add: nodes_of_append split: sum.splits)
  have "nestLevel (''a:'' @ n @ '':{'' @ (concat (map render vs) @ render_open frames)) currentList =
      (case nodes_of (vs @ close_all frames) of
         Inl err \<Rightarrow> Inl err
       | Inr xs \<Rightarrow> Inr (currentList @ [NList xs], []))"
    by (subst nestLevel_array_open[OF d]) (simp add: body nestLevel_Nil split: sum.splits)
  then show ?case using frame by (simp split: sum.splits)
qed

lemma render_open_closed:
  "render_open frames @ replicate (length frames) CHR ''}'' = concat (map render (close_all frames))"
proof (induction frames)
  case Nil
  show ?case by simp
next
  case (Cons frame frames)
  obtain n vs where frame: "frame = (n, vs)" by (cases frame)
  have "replicate (Suc (length frames)) CHR ''}'' = replicate (length frames) CHR ''}'' @ ''}''"
    by (simp add: replicate_append_same)
  with Cons.IH frame show ?case by simp
qed

lemma well_formed_close_all:
  "well_formed_open frames \<Longrightarrow> list_all well_formed (close_all frames)"
  by (induction frames) (auto simp: well_formed_open_def)

lemma split_plain_aux:
  "\<not> colon_after_s (ch # c) \<Longrightarrow> c = [] \<or> last c \<noteq> CHR '':'' \<Longrightarrow> list_all (\<lambda>x. x \<noteq> CHR 0x22) c
     \<Longrightarrow> colonStringSplit (Some ch) (c @ [CHR 0x22]) = [c @ [CHR 0x22]]"
proof (induction c arbitrary: ch)
  case Nil
  show ?case by simp
next
  case (Cons a r)
  from Cons.prems(1) have ns: "\<not> (ch = CHR ''s'' \<and> a = CHR '':'')" and nr: "\<not> colon_after_s (a # r)"
    by simp_all
  from Cons.prems(2) have lr: "r = [] \<or> last r \<noteq> CHR '':''" by (cases r) auto
  from Cons.prems(3) have qr: "list_all (\<lambda>x. x \<noteq> CHR 0x22) r" by simp
  have rec: "colonStringSplit (Some a) (r @ [CHR 0x22]) = [r @ [CHR 0x22]]"
    by (rule Cons.IH[OF nr lr qr])
  have nocut: "\<not> (a = CHR '':'' \<and> (Some ch = Some CHR ''s'' \<or>
                  (case r @ [CHR 0x22] of [] \<Rightarrow> False | d # _ \<Rightarrow> d = CHR 0x22)))"
  proof (cases r)
    case Nil
    with Cons.prems(2) ns show ?thesis by auto
  next
    case (Cons b r')
    with Cons.prems(3) ns show ?thesis by auto
  qed
  have "colonStringSplit (Some ch) (a # (r @ [CHR 0x22])) = [a # (r @ [CHR 0x22])]"
    by (subst colonStringSplit.simps) (simp only: nocut if_False rec list.case)
  then show ?case by simp
qed

lemma split_plain:
  assumes "plain_payload c" "list_all (\<lambda>x. x \<noteq> CHR 0x22) c"
  shows "colonStringSplit (Some CHR '':'') (CHR 0x22 # c @ [CHR 0x22]) = [CHR 0x22 # c @ [CHR 0x22]]"
proof -
  have "\<not> colon_after_s (CHR 0x22 # c)" using assms(1) by (cases c) (simp_all add: plain_payload_def)
  then have "colonStringSplit (Some CHR 0x22) (c @ [CHR 0x22]) = [c @ [CHR 0x22]]"
    using assms by (intro split_plain_aux) (simp_all add: plain_payload_def)
  then show ?thesis by simp
qed

lemma py_int_digits: "digits ds \<Longrightarrow> py_int ds = Inr (foldl (\<lambda>n c. 10 * n + digit_val c) 0 ds)"
  by (simp add: py_int_def digits_def)

lemma node_of_VStr_plain:
  assumes "plain_payload c" "list_all (\<lambda>x. x \<noteq> CHR 0x22) c"
  shows "node_of (VStr n c semi) = Inr (Scalar (PStr c))"
  by (simp only: node_of.simps split_plain[OF assms] list.case)

lemma node_of_plain:
  "well_formed v \<Longrightarrow> plain v \<Longrightarrow> node_of v = Inr (value_of v)"
  and nodes_of_plain: "list_all well_formed vs \<Longrightarrow> list_all plain vs \<Longrightarrow> nodes_of vs = Inr (map value_of vs)"
proof (induction v and vs rule: node_of_nodes_of.induct)
  case (1 ds semi)
  then show ?case by (simp add: py_int_digits)
next
  case (2 n c semi)
  then show ?case by (simp add: node_of_VStr_plain del: node_of.simps)
next
  case (3 d semi)
  show ?case by simp
next
  case (4 n vs)
  then show ?case by simp
next
  case 5
  show ?case by simp
next
  case (6 v vs)
  then show ?case by simp
qed

lemma value_of_erase: "value_of (erase_counts v) = value_of v"
  by (induction v rule: erase_counts.induct) simp_all

lemma plain_erase: "plain (erase_counts v) = plain v"
  by (induction v rule: erase_counts.induct) (simp_all add: list_all_iff)

section \<open>The converter on the pairs\<close>

lemma convert_loop_pairs: "convert_loop xs d = run_pairs (paired xs) d"
  by (induction xs arbitrary: d rule: induct_list012)
     (auto simp: assign_def split: node.splits sum.splits)

lemma run_pairs_ok:
  assumes "\<And>key val. (key, val) \<in> set ps \<Longrightarrow>
             (\<exists>k. key = Scalar k) \<and> (\<forall>sub. val = NList sub \<longrightarrow> (\<exists>d. convert_list sub = Inr d))"
  shows "\<exists>d'. run_pairs ps d = Inr d'"
  using assms
proof (induction ps arbitrary: d)
  case Nil
  show ?case by simp
next
  case (Cons p ps)
  obtain key val where p: "p = (key, val)" by (cases p)
  from Cons.prems[of key val] p obtain k where k: "key = Scalar k"
    and v: "\<forall>sub. val = NList sub \<longrightarrow> (\<exists>d. convert_list sub = Inr d)" by auto
  from k v obtain d1 where a: "assign d key val = Inr d1"
    by (cases val) (auto simp: assign_def)
  have "\<exists>d'. run_pairs ps d1 = Inr d'"
    by (rule Cons.IH) (use Cons.prems in auto)
  with a p show ?case by simp
qed

lemma convert_list_ok: "keys_ok n \<Longrightarrow> n = NList xs \<Longrightarrow> \<exists>d. convert_list xs = Inr d"
proof (induction n arbitrary: xs rule: keys_ok.induct)
  case (1 s)
  then show ?case by simp
next
  case (2 ys)
  from "2.prems" have xs: "ys = xs" and ok: "keys_ok (NList xs)" by simp_all
  have "\<exists>d'. run_pairs (paired xs) [] = Inr d'"
  proof (rule run_pairs_ok)
    fix key val assume in_ps: "(key, val) \<in> set (paired xs)"
    with ok have k: "(case key of Scalar _ \<Rightarrow> True | NList _ \<Rightarrow> False)" and v: "keys_ok val"
      by (auto simp: list_all_iff)
    from k have "\<exists>k. key = Scalar k" by (cases key) auto
    moreover have "\<forall>sub. val = NList sub \<longrightarrow> (\<exists>d. convert_list sub = Inr d)"
      using "2.IH"[OF _ refl v] in_ps xs by auto
    ultimately show "(\<exists>k. key = Scalar k) \<and> (\<forall>sub. val = NList sub \<longrightarrow> (\<exists>d. convert_list sub = Inr d))"
      by simp
  qed
  then show ?case by (simp add: convert_loop_pairs)
qed

lemma run_pairs_Inr:
  "run_pairs ps d = Inr d' \<Longrightarrow> (key, val) \<in> set ps \<Longrightarrow> \<exists>d0 d1. assign d0 key val = Inr d1"
proof (induction ps arbitrary: d)
  case Nil
  then show ?case by simp
next
  case (Cons p ps)
  obtain k v where p: "p = (k, v)" by (cases p)
  from Cons.prems(1) p obtain d1 where a: "assign d k v = Inr d1" and r: "run_pairs ps d1 = Inr d'"
    by (auto split: sum.splits)
  show ?case
  proof (cases "(key, val) = (k, v)")
    case True
    with a show ?thesis by auto
  next
    case False
    with Cons.prems(2) p have "(key, val) \<in> set ps" by auto
    with Cons.IH[OF r] show ?thesis by blast
  qed
qed

lemma assign_Inr:
  "assign d0 key val = Inr d1 \<Longrightarrow>
     (\<exists>k. key = Scalar k) \<and> (\<forall>sub. val = NList sub \<longrightarrow> (\<exists>d. convert_list sub = Inr d))"
  by (cases val; cases key) (auto simp: assign_def split: sum.splits)

lemma convert_list_ok_conv: "n = NList xs \<Longrightarrow> convert_list xs = Inr d \<Longrightarrow> keys_ok n"
proof (induction n arbitrary: xs d rule: keys_ok.induct)
  case (1 s)
  then show ?case by simp
next
  case (2 ys)
  from "2.prems" have xs: "ys = xs" and run: "run_pairs (paired xs) [] = Inr d"
    by (simp_all add: convert_loop_pairs)
  have "\<And>key val. (key, val) \<in> set (paired xs) \<Longrightarrow>
          (case key of Scalar _ \<Rightarrow> True | NList _ \<Rightarrow> False) \<and> keys_ok val"
  proof -
    fix key val assume in_ps: "(key, val) \<in> set (paired xs)"
    from run_pairs_Inr[OF run in_ps] obtain d0 d1 where "assign d0 key val = Inr d1" by blast
    from assign_Inr[OF this] obtain k where k: "key = Scalar k"
      and v: "\<forall>sub. val = NList sub \<longrightarrow> (\<exists>d. convert_list sub = Inr d)" by blast
    have "keys_ok val"
    proof (cases val)
      case (Scalar s)
      then show ?thesis by simp
    next
      case (NList sub)
      with v obtain d2 where "convert_list sub = Inr d2" by blast
      from "2.IH"[OF _ refl NList this] in_ps xs show ?thesis by auto
    qed
    with k show "(case key of Scalar _ \<Rightarrow> True | NList _ \<Rightarrow> False) \<and> keys_ok val" by simp
  qed
  then show ?case using xs by (auto simp: list_all_iff)
qed

lemma assign_TypeError: "assign d key val = Inl err \<Longrightarrow>
    (\<And>sub e. val = NList sub \<Longrightarrow> convert_list sub = Inl e \<Longrightarrow> e = TypeError) \<Longrightarrow> err = TypeError"
  by (cases val; cases key) (auto simp: assign_def split: sum.splits)

lemma convert_list_TypeError: "n = NList xs \<Longrightarrow> convert_list xs = Inl err \<Longrightarrow> err = TypeError"
proof (induction n arbitrary: xs err rule: keys_ok.induct)
  case (1 s)
  then show ?case by simp
next
  case (2 ys)
  from "2.prems" have xs: "ys = xs" and run: "run_pairs (paired xs) [] = Inl err"
    by (simp_all add: convert_loop_pairs)
  have inner: "\<And>key val sub e. (key, val) \<in> set (paired xs) \<Longrightarrow> val = NList sub \<Longrightarrow>
                  convert_list sub = Inl e \<Longrightarrow> e = TypeError"
    using "2.IH" xs by auto
  have "\<And>ps d. set ps \<subseteq> set (paired xs) \<Longrightarrow> run_pairs ps d = Inl err \<Longrightarrow> err = TypeError"
  proof -
    fix ps d show "set ps \<subseteq> set (paired xs) \<Longrightarrow> run_pairs ps d = Inl err \<Longrightarrow> err = TypeError"
    proof (induction ps arbitrary: d)
      case Nil
      then show ?case by simp
    next
      case (Cons p ps)
      obtain k v where p: "p = (k, v)" by (cases p)
      show ?case
      proof (cases "assign d k v")
        case (Inl e)
        with Cons.prems(2) p have "e = err" by simp
        with Inl have "assign d k v = Inl err" by simp
        then show ?thesis
          by (rule assign_TypeError) (use inner Cons.prems(1) p in auto)
      next
        case (Inr d1)
        with Cons.prems p have "run_pairs ps d1 = Inl err" "set ps \<subseteq> set (paired xs)" by auto
        then show ?thesis using Cons.IH by blast
      qed
    qed
  qed
  from this[OF subset_refl run] show ?case .
qed

lemma convert_keys_bad: "\<not> keys_ok (NList xs) \<Longrightarrow> convert (NList xs) = Inl TypeError"
proof (cases "convert_list xs")
  case (Inl err)
  assume "\<not> keys_ok (NList xs)"
  from convert_list_TypeError[OF refl Inl] Inl show ?thesis by (simp add: convert_def)
next
  case (Inr d)
  assume "\<not> keys_ok (NList xs)"
  with convert_list_ok_conv[OF refl Inr] show ?thesis by simp
qed

lemma decode_plain:
  assumes "well_formed v" "plain v"
  shows "decode_keyData (render v) = convert (value_of v)"
  using decode_render[OF assms(1)] node_of_plain[OF assms] by simp

lemma convert_array_ok:
  "keys_ok (value_of (VArr n vs)) \<Longrightarrow> \<exists>r. convert (value_of (VArr n vs)) = Inr r"
  using convert_list_ok[of "NList (map value_of vs)" "map value_of vs"]
  by (simp add: convert_def)

lemma nestLevel_plain_array:
  assumes d: "digits n" and w: "list_all well_formed vs" and p: "list_all plain vs"
  shows "nestLevel (render (VArr n vs) @ rest) currentList
           = nestLevel rest (currentList @ [NList (map value_of vs)])"
    and "nestLevel (''a:'' @ n @ '':{'' @ concat (map render vs)) currentList
           = Inr (currentList @ [NList (map value_of vs)], [])"
proof -
  have wf: "well_formed (VArr n vs)" and pl: "plain (VArr n vs)" using d w p by simp_all
  show "nestLevel (render (VArr n vs) @ rest) currentList
           = nestLevel rest (currentList @ [NList (map value_of vs)])"
    using nestLevel_render[OF wf, of rest currentList] node_of_plain[OF wf pl] by simp
  have "follow_ok []" by (simp add: follow_ok_def)
  from nestLevel_renders[OF w this, of "[]"] nodes_of_plain[OF w p]
  have body: "nestLevel (concat (map render vs)) [] = Inr (map value_of vs, [])"
    by (simp add: nestLevel_Nil)
  show "nestLevel (''a:'' @ n @ '':{'' @ concat (map render vs)) currentList
           = Inr (currentList @ [NList (map value_of vs)], [])"
    by (subst nestLevel_array_open[OF d]) (simp add: body nestLevel_Nil)
qed

section \<open>Properties of the decoder\<close>

subsection \<open>Boolean tokens\<close>

text \<open>
  C1. The claim: the digit of a boolean token decides the value, \<^verbatim>\<open>b:0;\<close> decoding to false
  and \<^verbatim>\<open>b:1;\<close> to true. The code takes \<^verbatim>\<open>bool(value)\<close> of the text after the colon,
  which is true of every non-empty string: both tokens decode to \<^verbatim>\<open>True\<close>, alone and as
  a value of a decoded record.
\<close>

theorem C1_boolean_zero_decodes_true:
  \<open>nestLevel ''b:0;'' [] = Inr ([Scalar (PBool True)], []) \<and>
   nestLevel ''b:1;'' [] = Inr ([Scalar (PBool True)], []) \<and>
   decode_keyData ''a:2:{s:1:"k";b:0;}'' = Inr [(PStr ''k'', Leaf (PBool True))]\<close>
  by code_simp

subsection \<open>The end of the input inside an array\<close>

text \<open>
  C2, as claimed: an array that is still open when the text ends makes decoding fail.
  The loop of \<^verbatim>\<open>nestLevel\<close> ends when the text is empty and returns the list built so
  far, at every depth: the text \<^verbatim>\<open>a:1:{i:1\<close> decodes, to the empty record.
\<close>

theorem C2_unclosed_array_counterexample:
  \<open>decode_keyData ''a:1:{i:1'' = Inr []\<close>
  by code_simp

text \<open>
  C2, amended: when the text ends while arrays are still open, decoding does not fail for
  that reason. It gives what the same text gives with the missing closing markers appended:
  every open array ends where the text ends.
\<close>

theorem C2_open_arrays_are_closed_at_the_end:
  assumes "well_formed_open frames"
  shows "decode_keyData (render_open frames) =
         decode_keyData (render_open frames @ replicate (length frames) CHR ''}'')"
proof -
  have "follow_ok []" by (simp add: follow_ok_def)
  from nestLevel_renders[OF well_formed_close_all[OF assms] this, of "[]"]
  have "nestLevel (render_open frames @ replicate (length frames) CHR ''}'') [] =
      (case nodes_of (close_all frames) of Inl err \<Rightarrow> Inl err | Inr xs \<Rightarrow> Inr (xs, []))"
    by (simp add: render_open_closed nestLevel_Nil split: sum.splits)
  moreover have "nestLevel (render_open frames) [] =
      (case nodes_of (close_all frames) of Inl err \<Rightarrow> Inl err | Inr xs \<Rightarrow> Inr (xs, []))"
    using nestLevel_render_open[OF assms, of "[]"] by (simp split: sum.splits)
  ultimately show ?thesis by (simp add: decode_keyData_def)
qed

theorem C2_open_arrays_are_closed_at_the_end_witness:
  \<open>decode_keyData ''a:1:{i:1'' = decode_keyData ''a:1:{i:1}'' \<and>
   decode_keyData ''a:1:{i:1}'' = Inr [] \<and>
   decode_keyData ''a:2:{s:1:"k";a:1:{s:1:"j";i:5;'' = decode_keyData ''a:2:{s:1:"k";a:1:{s:1:"j";i:5;}}'' \<and>
   decode_keyData ''a:2:{s:1:"k";a:1:{s:1:"j";i:5;}}''
     = Inr [(PStr ''k'', Record [(PStr ''j'', Leaf (PInt 5))])]\<close>
proof -
  let ?f = "[(''1'', [VInt ''1'' False])]"
  let ?g = "[(''2'', [VStr ''1'' ''k'' True]), (''1'', [VStr ''1'' ''j'' True, VInt ''5'' True])]"
  have w: "well_formed_open ?f" "well_formed_open ?g"
    by (simp_all add: well_formed_open_def digits_def is_digit_def)
  have r: \<open>render_open ?f = ''a:1:{i:1''\<close> \<open>render_open ?g = ''a:2:{s:1:"k";a:1:{s:1:"j";i:5;''\<close>
    by (simp_all add: semi_text_def)
  have d: \<open>decode_keyData ''a:1:{i:1}'' = Inr []\<close>
    \<open>decode_keyData ''a:2:{s:1:"k";a:1:{s:1:"j";i:5;}}''
     = Inr [(PStr ''k'', Record [(PStr ''j'', Leaf (PInt 5))])]\<close> by code_simp+
  from C2_open_arrays_are_closed_at_the_end[OF w(1), unfolded r]
    C2_open_arrays_are_closed_at_the_end[OF w(2), unfolded r] d
  show ?thesis by simp
qed

subsection \<open>The first match and all matches\<close>

text \<open>
  C3. The claim: \<^verbatim>\<open>find\<close> returns nothing exactly when \<^verbatim>\<open>findAll\<close> returns no
  value, and otherwise the first value of \<^verbatim>\<open>findAll\<close>. A match found inside a nested
  record is returned only if it is true as a Python condition (\<^verbatim>\<open>if res:\<close>): the record
  decoded from \<^verbatim>\<open>a:1:{s:1:"o";a:1:{s:1:"k";i:0;}}\<close> holds the value 0 under \<^verbatim>\<open>k\<close>,
  which \<^verbatim>\<open>findAll\<close> reports and \<^verbatim>\<open>find\<close> does not; with a second entry \<^verbatim>\<open>k\<close>
  after it, \<^verbatim>\<open>find\<close> returns the second.
\<close>

theorem C3_find_misses_falsy_nested_value:
  \<open>decode_keyData ''a:1:{s:1:"o";a:1:{s:1:"k";i:0;}}''
      = Inr [(PStr ''o'', Record [(PStr ''k'', Leaf (PInt 0))])] \<and>
   find' (PStr ''k'') [(PStr ''o'', Record [(PStr ''k'', Leaf (PInt 0))])] = None \<and>
   findAll (PStr ''k'') [(PStr ''o'', Record [(PStr ''k'', Leaf (PInt 0))])] = [Leaf (PInt 0)] \<and>
   find' (PStr ''k'') [(PStr ''o'', Record [(PStr ''k'', Leaf (PInt 0))]), (PStr ''k'', Leaf (PInt 5))]
      = Some (Leaf (PInt 5)) \<and>
   findAll (PStr ''k'') [(PStr ''o'', Record [(PStr ''k'', Leaf (PInt 0))]), (PStr ''k'', Leaf (PInt 5))]
      = [Leaf (PInt 0), Leaf (PInt 5)]\<close>
  by code_simp

subsection \<open>The top-level list\<close>

text \<open>
  C4, as claimed: a top-level list that does not hold exactly one element makes decoding
  fail with the syntax error. The code takes element 0 of the list and never looks at its
  length: two top-level arrays decode to the record of the first, and the empty text fails
  with \<^verbatim>\<open>IndexError\<close>.
\<close>

theorem C4_two_top_level_elements_counterexample:
  \<open>nestLevel ''a:0:{}a:0:{}'' [] = Inr ([NList [], NList []], []) \<and>
   decode_keyData ''a:0:{}a:0:{}'' = Inr [] \<and>
   nestLevel '''' [] = Inr ([], []) \<and>
   decode_keyData '''' = Inl IndexError\<close>
  by code_simp

text \<open>
  C4, amended: when the top-level list is not empty, its first element is handed to
  \<^verbatim>\<open>convert\<close> and the elements after it are ignored; when it is empty, decoding fails
  with \<^verbatim>\<open>IndexError\<close>.
\<close>

theorem C4_first_element_is_converted:
  "(nestLevel keyData [] = Inr (root # others, rest) \<longrightarrow> decode_keyData keyData = convert root) \<and>
   (nestLevel keyData [] = Inr ([], rest) \<longrightarrow> decode_keyData keyData = Inl IndexError)"
  by (simp add: decode_keyData_def)

theorem C4_first_element_is_converted_witness:
  \<open>nestLevel ''a:0:{}a:0:{}'' [] = Inr ([NList [], NList []], []) \<and>
   decode_keyData ''a:0:{}a:0:{}'' = convert (NList []) \<and>
   nestLevel '''' [] = Inr ([], []) \<and> decode_keyData '''' = Inl IndexError\<close>
proof -
  have a: \<open>nestLevel ''a:0:{}a:0:{}'' [] = Inr ([NList [], NList []], [])\<close> by code_simp
  have b: \<open>nestLevel '''' [] = Inr ([], [])\<close> by code_simp
  from a b C4_first_element_is_converted[of \<open>''a:0:{}a:0:{}''\<close> "NList []" "[NList []]" "[]"]
    C4_first_element_is_converted[of \<open>''''\<close> _ _ "[]"]
  show ?thesis by simp
qed

subsection \<open>Lists of odd length\<close>

text \<open>
  C5, as claimed: converting a list of odd length always succeeds. A list in key position
  is unhashable: the list of length 3 built from \<^verbatim>\<open>a:3:{a:0:{}i:1;i:2;}\<close> has the empty
  list as its first key, and converting it raises \<^verbatim>\<open>TypeError\<close>.
\<close>

theorem C5_odd_length_counterexample:
  "odd (length [NList [], Scalar (PInt 1), Scalar (PInt 2)]) \<and>
   convert (NList [NList [], Scalar (PInt 1), Scalar (PInt 2)]) = Inl TypeError \<and>
   nestLevel ''a:3:{a:0:{}i:1;i:2;}'' [] = Inr ([NList [NList [], Scalar (PInt 1), Scalar (PInt 2)]], []) \<and>
   decode_keyData ''a:3:{a:0:{}i:1;i:2;}'' = Inl TypeError"
  by code_simp

text \<open>
  C5, amended. The converter runs its loop body over the pairs at the positions (0, 1),
  (2, 3), ... and over nothing else. The last element of a list of odd length is in no
  pair: the pairs, and so the result, are those of the list without it, and the odd
  length raises nothing. The conversion succeeds exactly when every key, in the list and
  in the lists nested in its values, is a scalar; otherwise it raises \<^verbatim>\<open>TypeError\<close>. In
  particular the text \<^verbatim>\<open>a:1:{i:42;}\<close>, a root array holding one integer, decodes to the
  record with no entries.
\<close>

theorem C5_odd_length_pairs:
  \<open>convert (NList xs) = run_pairs (paired xs) [] \<and>
   (odd (length xs) \<longrightarrow>
      paired xs = paired (butlast xs) \<and> convert (NList xs) = convert (NList (butlast xs))) \<and>
   (keys_ok (NList xs) \<longrightarrow> (\<exists>d. convert (NList xs) = Inr d)) \<and>
   (\<not> keys_ok (NList xs) \<longrightarrow> convert (NList xs) = Inl TypeError) \<and>
   decode_keyData ''a:1:{i:42;}'' = Inr []\<close>
proof -
  have 1: "convert (NList xs) = run_pairs (paired xs) []"
    by (simp add: convert_def convert_loop_pairs)
  have 2: "odd (length xs) \<longrightarrow>
      paired xs = paired (butlast xs) \<and> convert (NList xs) = convert (NList (butlast xs))"
    by (simp add: convert_def convert_loop_pairs paired_odd)
  have 3: "keys_ok (NList xs) \<longrightarrow> (\<exists>d. convert (NList xs) = Inr d)"
    using convert_list_ok[of "NList xs" xs] by (simp add: convert_def)
  have 4: "\<not> keys_ok (NList xs) \<longrightarrow> convert (NList xs) = Inl TypeError"
    using convert_keys_bad by blast
  have 5: \<open>decode_keyData ''a:1:{i:42;}'' = Inr []\<close> by code_simp
  from 1 2 3 4 5 show ?thesis by blast
qed

theorem C5_odd_length_pairs_witness:
  \<open>odd (length [Scalar (PStr ''a''), Scalar (PInt 1), Scalar (PStr ''b''),
                 NList [Scalar (PStr ''c''), Scalar (PInt 2), Scalar (PStr ''d'')], Scalar (PStr ''e'')]) \<and>
   keys_ok (NList [Scalar (PStr ''a''), Scalar (PInt 1), Scalar (PStr ''b''),
                 NList [Scalar (PStr ''c''), Scalar (PInt 2), Scalar (PStr ''d'')], Scalar (PStr ''e'')]) \<and>
   paired [Scalar (PStr ''a''), Scalar (PInt 1), Scalar (PStr ''b''),
                 NList [Scalar (PStr ''c''), Scalar (PInt 2), Scalar (PStr ''d'')], Scalar (PStr ''e'')]
     = [(Scalar (PStr ''a''), Scalar (PInt 1)),
        (Scalar (PStr ''b''), NList [Scalar (PStr ''c''), Scalar (PInt 2), Scalar (PStr ''d'')])] \<and>
   convert (NList [Scalar (PStr ''a''), Scalar (PInt 1), Scalar (PStr ''b''),
                 NList [Scalar (PStr ''c''), Scalar (PInt 2), Scalar (PStr ''d'')], Scalar (PStr ''e'')])
     = Inr [(PStr ''a'', Leaf (PInt 1)), (PStr ''b'', Record [(PStr ''c'', Leaf (PInt 2))])] \<and>
   convert (NList [Scalar (PStr ''a''), Scalar (PInt 1), Scalar (PStr ''b''),
                 NList [Scalar (PStr ''c''), Scalar (PInt 2), Scalar (PStr ''d'')]])
     = Inr [(PStr ''a'', Leaf (PInt 1)), (PStr ''b'', Record [(PStr ''c'', Leaf (PInt 2))])] \<and>
   \<not> keys_ok (NList [NList [], Scalar (PInt 1), Scalar (PInt 2)]) \<and>
   convert (NList [NList [], Scalar (PInt 1), Scalar (PInt 2)]) = Inl TypeError \<and>
   decode_keyData ''a:1:{i:42;}'' = Inr []\<close>
proof -
  let ?xs = "[Scalar (PStr ''a''), Scalar (PInt 1), Scalar (PStr ''b''),
                 NList [Scalar (PStr ''c''), Scalar (PInt 2), Scalar (PStr ''d'')], Scalar (PStr ''e'')]"
  let ?bad = "[NList [], Scalar (PInt 1), Scalar (PInt 2)]"
  have o: "odd (length ?xs)" by simp
  have k: "keys_ok (NList ?xs)" by simp
  have nk: "\<not> keys_ok (NList ?bad)" by simp
  have p: "paired ?xs = [(Scalar (PStr ''a''), Scalar (PInt 1)),
        (Scalar (PStr ''b''), NList [Scalar (PStr ''c''), Scalar (PInt 2), Scalar (PStr ''d'')])]"
    by simp
  have r: "run_pairs (paired ?xs) []
     = Inr [(PStr ''a'', Leaf (PInt 1)), (PStr ''b'', Record [(PStr ''c'', Leaf (PInt 2))])]"
    unfolding p by code_simp
  note t = C5_odd_length_pairs[of ?xs] and b = C5_odd_length_pairs[of ?bad]
  from t r have c1: "convert (NList ?xs)
     = Inr [(PStr ''a'', Leaf (PInt 1)), (PStr ''b'', Record [(PStr ''c'', Leaf (PInt 2))])]"
    by (simp only:)
  from t o have "convert (NList ?xs) = convert (NList (butlast ?xs))" by blast
  with c1 have c2: "convert (NList [Scalar (PStr ''a''), Scalar (PInt 1), Scalar (PStr ''b''),
                 NList [Scalar (PStr ''c''), Scalar (PInt 2), Scalar (PStr ''d'')]])
     = Inr [(PStr ''a'', Leaf (PInt 1)), (PStr ''b'', Record [(PStr ''c'', Leaf (PInt 2))])]"
    by simp
  from b nk have c3: "convert (NList ?bad) = Inl TypeError" by blast
  from t have c4: \<open>decode_keyData ''a:1:{i:42;}'' = Inr []\<close> by blast
  from o k p c1 c2 nk c3 c4 show ?thesis by (intro conjI)
qed

subsection \<open>Text that starts with no token\<close>

lemma nestLevel_no_match:
  assumes "keyData \<noteq> []" "re_search keyData = None"
  shows "nestLevel keyData currentList = Inl (InvalidArrayFormat keyData)"
  using assms by (subst nestLevel.simps) simp

lemma lexer_None:
  "integer 0 s = None \<Longrightarrow> string 0 s = None \<Longrightarrow> array 0 s = None \<Longrightarrow> endArr 0 s = None
     \<Longrightarrow> boolean 0 s = None \<Longrightarrow> lexer 0 s = None"
  by (simp add: lexer_def)

text \<open>
  C6. When the text left is not empty and none of the five token patterns matches at its
  front, \<^verbatim>\<open>nestLevel\<close> raises \<^verbatim>\<open>InvalidArrayFormat\<close> with that text, whatever list it
  has built; so does decoding a text that starts that way, such as \<^verbatim>\<open>x:1;\<close>.
\<close>

theorem C6_no_token_is_InvalidArrayFormat:
  assumes "keyData \<noteq> []"
    and "integer 0 keyData = None" and "string 0 keyData = None" and "array 0 keyData = None"
    and "endArr 0 keyData = None" and "boolean 0 keyData = None"
  shows "nestLevel keyData currentList = Inl (InvalidArrayFormat keyData) \<and>
         decode_keyData keyData = Inl (InvalidArrayFormat keyData)"
proof -
  have "re_search keyData = None"
    using assms(2-6) by (simp add: re_search_eq lexer_None)
  with assms(1) have "\<And>l. nestLevel keyData l = Inl (InvalidArrayFormat keyData)"
    by (rule nestLevel_no_match)
  then show ?thesis by (simp add: decode_keyData_def)
qed

theorem C6_no_token_is_InvalidArrayFormat_witness:
  "nestLevel ''x:1;'' [Scalar (PInt 7)] = Inl (InvalidArrayFormat ''x:1;'') \<and>
   decode_keyData ''x:1;'' = Inl (InvalidArrayFormat ''x:1;'')"
proof -
  have "''x:1;'' \<noteq> []" by simp
  moreover have "integer 0 ''x:1;'' = None" by code_simp
  moreover have "string 0 ''x:1;'' = None" by code_simp
  moreover have "array 0 ''x:1;'' = None" by code_simp
  moreover have "endArr 0 ''x:1;'' = None" by code_simp
  moreover have "boolean 0 ''x:1;'' = None" by code_simp
  ultimately show ?thesis by (rule C6_no_token_is_InvalidArrayFormat)
qed

subsection \<open>Matches start at the front\<close>



subsection \<open>Array counts\<close>




subsection \<open>Text after an unmatched closing marker\<close>




subsection \<open>The record after a search\<close>

lemma find_h_heap:
  "snd (find_traverse_h depth key nested h) = h"
  "snd (find_loop_h depth key items h) = h"
proof (induction depth key nested h and depth key items h rule: find_traverse_h_find_loop_h.induct)
  case (1 key nested h)
  show ?case by simp
next
  case (2 depth key nested h)
  then show ?case by (simp split: hval.splits option.splits obj.splits)
next
  case (3 depth key h)
  show ?case by simp
next
  case (4 depth key ky val items h)
  show ?case
  proof (cases "py_eq ky key")
    case True
    then show ?thesis by simp
  next
    case False
    show ?thesis
    proof (cases "is_dict h val")
      case d: True
      obtain r h' where tr: "find_traverse_h depth key val h = (r, h')"
        by (cases "find_traverse_h depth key val h")
      with "4.IH"(1)[OF False d] have h': "h' = h" by simp
      show ?thesis
      proof (cases r)
        case (Inl e)
        with False d tr h' show ?thesis by simp
      next
        case (Inr res)
        with False d tr h' "4.IH"(2)[OF False d tr[symmetric] Inr] show ?thesis
          by simp
      qed
    next
      case nd: False
      with False "4.IH"(3) show ?thesis by simp
    qed
  qed
qed

lemma only_list_changed_refl: "only_list_changed occ h h"
  by (simp add: only_list_changed_def)

lemma only_list_changed_trans:
  "only_list_changed occ h h1 \<Longrightarrow> only_list_changed occ h1 h2 \<Longrightarrow> only_list_changed occ h h2"
  by (simp add: only_list_changed_def)

lemma only_list_changed_append: "only_list_changed occ h (list_append h occ v)"
  by (auto simp: only_list_changed_def list_append_def lookup_def
           split: option.splits obj.splits if_splits)

lemma findAll_h_frame:
  "only_list_changed occ h (snd (findAll_traverse_h depth key occ nested h))"
  "only_list_changed occ h (snd (findAll_loop_h depth key occ items h))"
proof (induction depth key occ nested h and depth key occ items h
       rule: findAll_traverse_h_findAll_loop_h.induct)
  case (1 key occ nested h)
  show ?case by (simp add: only_list_changed_refl)
next
  case (2 depth key occ nested h)
  then show ?case
    by (simp add: only_list_changed_refl split: hval.splits option.splits obj.splits)
next
  case (3 depth key occ h)
  show ?case by (simp add: only_list_changed_refl)
next
  case (4 depth key occ ky val items h)
  define h1 where "h1 = (if py_eq ky key then list_append h occ val else h)"
  have s1: "only_list_changed occ h h1"
    by (simp add: h1_def only_list_changed_refl only_list_changed_append)
  show ?case
  proof (cases "is_dict h1 val")
    case d: True
    obtain e h2 where tr: "findAll_traverse_h depth key occ val h1 = (e, h2)"
      by (cases "findAll_traverse_h depth key occ val h1")
    from "4.IH"(1)[OF h1_def d] tr have s2: "only_list_changed occ h1 h2" by simp
    show ?thesis
    proof (cases e)
      case None
      from "4.IH"(2)[OF h1_def d tr[symmetric] None]
      have "only_list_changed occ h2 (snd (findAll_loop_h depth key occ items h2))" .
      with s1 s2 have "only_list_changed occ h (snd (findAll_loop_h depth key occ items h2))"
        by (blast intro: only_list_changed_trans)
      with d tr None show ?thesis by (simp add: h1_def[symmetric] Let_def)
    next
      case (Some err)
      from s1 s2 have "only_list_changed occ h h2" by (rule only_list_changed_trans)
      with d tr Some show ?thesis by (simp add: h1_def[symmetric] Let_def)
    qed
  next
    case nd: False
    from "4.IH"(3)[OF h1_def nd] s1
    have "only_list_changed occ h (snd (findAll_loop_h depth key occ items h1))"
      by (blast intro: only_list_changed_trans)
    with nd show ?thesis by (simp add: h1_def[symmetric] Let_def)
  qed
qed

lemma findAll_h_heap:
  "\<exists>occurrences. snd (findAll_h limit key nestedDicts h) = h @ [OList occurrences]"
proof -
  let ?h1 = "h @ [OList []]"
  let ?h2 = "snd (findAll_traverse_h limit key (length h) nestedDicts ?h1)"
  have fr: "only_list_changed (length h) ?h1 ?h2" by (rule findAll_h_frame)
  have "lookup ?h1 (length h) = Some (OList [])" by (simp add: lookup_def)
  with fr obtain ys where ys: "lookup ?h2 (length h) = Some (OList ys)"
    by (auto simp: only_list_changed_def)
  from fr have len: "length ?h2 = Suc (length h)" by (simp add: only_list_changed_def)
  have "?h2 = h @ [OList ys]"
  proof (rule nth_equalityI)
    show "length ?h2 = length (h @ [OList ys])" using len by simp
  next
    fix i assume i: "i < length ?h2"
    show "?h2 ! i = (h @ [OList ys]) ! i"
    proof (cases "i = length h")
      case True
      with ys len show ?thesis by (simp add: lookup_def split: if_splits)
    next
      case False
      with i len have il: "i < length h" by simp
      from fr False have "lookup ?h2 i = lookup ?h1 i" by (simp add: only_list_changed_def)
      with il len show ?thesis by (simp add: lookup_def nth_append)
    qed
  qed
  moreover have "snd (findAll_h limit key nestedDicts h) = ?h2"
    by (simp add: findAll_h_def Let_def split: prod.splits option.splits)
  ultimately show ?thesis by auto
qed

text \<open>
  C8. After \<^verbatim>\<open>find\<close> the store is the store before the call. After \<^verbatim>\<open>findAll\<close> it is the
  store before the call with one new object at its end, the list of occurrences: every
  object that existed before the call, the record and its nested records among them, is
  the same after it. This holds whatever the arguments are and also when the call raises.
\<close>

theorem C8_find_and_findAll_change_no_object:
  "snd (find_h limit key nestedDicts h) = h \<and>
   (\<exists>occurrences. snd (findAll_h limit key nestedDicts h) = h @ [OList occurrences])"
  using findAll_h_heap[of limit key nestedDicts h] by (simp add: find_h_def find_h_heap)

end
